theory Spec2Isabelle
  imports Complex_Main "HOL-Library.Log_Nat"
begin

section \<open>A file-system cache with TTL: the engine of \<^verbatim>\<open>src/file-cache.ts\<close>\<close>

text \<open>
  The class \<^verbatim>\<open>FileSystemCachePlugin\<close> stores one JSON document per key in a directory,
  sweeps expired documents, and flushes the directory wholly or by pattern. Its methods
  are embedded here as functions on an explicit state: the directories, the four
  module-level variables and the console. Every \<^verbatim>\<open>throw\<close> of the source is a value
  \<open>Inl e\<close>, every \<^verbatim>\<open>try/catch\<close> a case distinction on it.

  Scope of the model.
  \<^item> The numbers that \<^verbatim>\<open>set\<close> computes with (the TTLs) are IEEE doubles: a rational,
    \<^verbatim>\<open>Infinity\<close>, \<^verbatim>\<open>-Infinity\<close> or \<^verbatim>\<open>NaN\<close>, with products and sums rounded to the
    nearest double and overflowing to infinity; \<^verbatim>\<open>-0\<close> is not kept apart from \<open>0\<close>.
    Times, and the numbers read back from a file, are rationals, and the sweep subtracts
    and divides them exactly. The module counters are naturals.
  \<^item> The text of a file is kept up to \<^verbatim>\<open>JSON.parse\<close>: it is either malformed, or the
    document it parses to, which has the shape \<^verbatim>\<open>set\<close> writes
    (\<^verbatim>\<open>{ payload, ttl, expiration }\<close>).
  \<^item> Calls run one after the other; the methods are \<^verbatim>\<open>async\<close>, but no interleaving is
    modelled.
  \<^item> A file name addresses a directory entry: names hold no path separator.
\<close>

subsection \<open>JSON values and payloads\<close>

datatype json =
    JNull
  | JBool bool
  | JNum rat
  | JStr string
  | JArr "json list"
  | JObj "(string \<times> json) list"

text \<open>The payload of \<^verbatim>\<open>set\<close> has type \<^verbatim>\<open>unknown\<close>: JSON data, or \<^verbatim>\<open>undefined\<close>.\<close>

datatype jsvalue = Undefined | Value json

text \<open>
  \<^verbatim>\<open>Object(v)\<close>: \<^verbatim>\<open>null\<close> and \<^verbatim>\<open>undefined\<close> give a new empty object, a primitive gives its
  wrapper object (\<^verbatim>\<open>Boolean\<close>, \<^verbatim>\<open>Number\<close>, \<^verbatim>\<open>String\<close>), an object or array is returned itself.
\<close>

datatype jsobject = Wrapper json | Ref json

fun Object_js :: "jsvalue \<Rightarrow> jsobject" where
  "Object_js Undefined = Ref (JObj [])"
| "Object_js (Value JNull) = Ref (JObj [])"
| "Object_js (Value (JBool b)) = Wrapper (JBool b)"
| "Object_js (Value (JNum n)) = Wrapper (JNum n)"
| "Object_js (Value (JStr s)) = Wrapper (JStr s)"
| "Object_js (Value (JArr xs)) = Ref (JArr xs)"
| "Object_js (Value (JObj kvs)) = Ref (JObj kvs)"

text \<open>
  What \<^verbatim>\<open>JSON.stringify\<close> writes for such an object, read back by \<^verbatim>\<open>JSON.parse\<close>: a
  wrapper object is written as the primitive it wraps, JSON data as itself.
\<close>

fun serialized :: "jsobject \<Rightarrow> json" where
  "serialized (Wrapper v) = v"
| "serialized (Ref v) = v"

subsection \<open>Numbers\<close>

text \<open>A JavaScript number: a finite value, an infinity, or \<^verbatim>\<open>NaN\<close>.\<close>

datatype jsnum = Fin rat | PosInfinity | NegInfinity | NaN

text \<open>In a condition, \<open>0\<close> and \<^verbatim>\<open>NaN\<close> are falsy.\<close>

fun truthy :: "jsnum \<Rightarrow> bool" where
  "truthy (Fin x) = (x \<noteq> 0)"
| "truthy PosInfinity = True"
| "truthy NegInfinity = True"
| "truthy NaN = False"

text \<open>
  Rounding to the nearest double, ties to the even significand. A positive \<open>a\<close> lies
  in the binade \<open>2 powi e \<le> a < 2 powi (e + 1)\<close> with \<open>e = ilog2 a\<close>; doubles there are
  the multiples of the quantum \<open>2 powi (e - 52)\<close>, and below the least normal binade
  (\<open>e < - 1022\<close>) the multiples of \<open>2 powi (- 1074)\<close>. A magnitude that rounds to
  \<open>2 ^ 1024\<close> or more is an infinity.
\<close>

definition round_half_even :: "rat \<Rightarrow> int" where
  "round_half_even y =
     (let f = \<lfloor>y\<rfloor>; d = y - of_int f
      in if d < 1 / 2 then f else if 1 / 2 < d then f + 1 else if even f then f else f + 1)"

definition ilog2 :: "rat \<Rightarrow> int" where
  "ilog2 a = (if 1 \<le> a then bitlen \<lfloor>a\<rfloor> - 1 else - bitlen (\<lceil>1 / a\<rceil> - 1))"

definition quantum :: "rat \<Rightarrow> rat" where
  "quantum a = 2 powi (max (ilog2 a) (- 1022) - 52)"

definition rounded :: "rat \<Rightarrow> rat" where
  "rounded a = of_int (round_half_even (a / quantum a)) * quantum a"

definition round64 :: "rat \<Rightarrow> jsnum" where
  "round64 x =
     (if x = 0 then Fin 0
      else if 2 ^ 1024 \<le> rounded \<bar>x\<bar> then (if 0 < x then PosInfinity else NegInfinity)
      else Fin (if 0 < x then rounded \<bar>x\<bar> else - rounded \<bar>x\<bar>))"

text \<open>The operators \<^verbatim>\<open>*\<close> and \<^verbatim>\<open>+\<close> on numbers.\<close>

fun js_times :: "jsnum \<Rightarrow> jsnum \<Rightarrow> jsnum" where
  "js_times NaN y = NaN"
| "js_times x NaN = NaN"
| "js_times (Fin x) (Fin y) = round64 (x * y)"
| "js_times (Fin x) PosInfinity =
     (if x = 0 then NaN else if 0 < x then PosInfinity else NegInfinity)"
| "js_times (Fin x) NegInfinity =
     (if x = 0 then NaN else if 0 < x then NegInfinity else PosInfinity)"
| "js_times PosInfinity (Fin y) =
     (if y = 0 then NaN else if 0 < y then PosInfinity else NegInfinity)"
| "js_times NegInfinity (Fin y) =
     (if y = 0 then NaN else if 0 < y then NegInfinity else PosInfinity)"
| "js_times PosInfinity PosInfinity = PosInfinity"
| "js_times PosInfinity NegInfinity = NegInfinity"
| "js_times NegInfinity PosInfinity = NegInfinity"
| "js_times NegInfinity NegInfinity = PosInfinity"

fun js_plus :: "jsnum \<Rightarrow> jsnum \<Rightarrow> jsnum" where
  "js_plus NaN y = NaN"
| "js_plus x NaN = NaN"
| "js_plus (Fin x) (Fin y) = round64 (x + y)"
| "js_plus (Fin x) PosInfinity = PosInfinity"
| "js_plus (Fin x) NegInfinity = NegInfinity"
| "js_plus PosInfinity (Fin y) = PosInfinity"
| "js_plus NegInfinity (Fin y) = NegInfinity"
| "js_plus PosInfinity PosInfinity = PosInfinity"
| "js_plus PosInfinity NegInfinity = NaN"
| "js_plus NegInfinity PosInfinity = NaN"
| "js_plus NegInfinity NegInfinity = NegInfinity"

text \<open>
  \<^verbatim>\<open>JSON.stringify\<close> writes a finite number as itself and an infinity or \<^verbatim>\<open>NaN\<close> as
  \<^verbatim>\<open>null\<close> (\<open>None\<close>).
\<close>

fun json_number :: "jsnum \<Rightarrow> rat option" where
  "json_number (Fin x) = Some x"
| "json_number PosInfinity = None"
| "json_number NegInfinity = None"
| "json_number NaN = None"

subsection \<open>The stored document, files and directories\<close>

text \<open>
  The object \<^verbatim>\<open>data\<close> of \<^verbatim>\<open>set\<close> as it stands in the file: \<open>None\<close> is \<^verbatim>\<open>null\<close>.
\<close>

record data =
  payload :: json
  ttl :: "rat option"
  expiration :: "rat option"

datatype filetext = Malformed | Document data

text \<open>
  A directory entry, described by what the file-system calls of the source do on it:
  whether \<^verbatim>\<open>stat\<close> succeeds, \<^verbatim>\<open>stats.isFile()\<close>, \<^verbatim>\<open>stats.size\<close>, the text \<^verbatim>\<open>readFile\<close>
  returns (\<open>None\<close>: the read fails), and whether \<^verbatim>\<open>unlinkSync\<close> succeeds. A regular
  file has \<open>stat_ok\<close>, \<open>is_file\<close> and \<open>unlink_ok\<close>; a subdirectory has \<open>stat_ok\<close> only.
\<close>

record node =
  stat_ok :: bool
  is_file :: bool
  size_bytes :: nat
  content :: "filetext option"
  unlink_ok :: bool

type_synonym folder = "(string \<times> node) list"

datatype error =
    ENOENT
  | EIO
  | EISDIR
  | EACCES
  | NotInCache string
  | JSON_SyntaxError
  | RegExp_SyntaxError

record TLogsOverTime =
  log_id :: rat
  bytes :: nat
  mb :: rat
  totalSize :: string
  endpointInvalidateRequestCount :: nat
  endpointDeleteRequestCount :: nat
  endpointDeleteByRegexRequestCount :: nat

text \<open>
  The state: the directories by path, in the order \<^verbatim>\<open>readdirSync\<close> lists them (\<open>None\<close>:
  no such directory); whether the process may create directories and files; the four
  module-level variables; what was passed to \<^verbatim>\<open>console.error\<close>.
\<close>

record state =
  fs :: "string \<Rightarrow> folder option"
  writable :: bool
  GLOBAL_ENDPOINT_INVALIDATE_REQUEST_COUNT :: nat
  GLOBAL_ENDPOINT_DELETE_REQUEST_COUNT :: nat
  GLOBAL_ENDPOINT_DELETE_BY_REGEX_REQUEST_COUNT :: nat
  GLOBAL_LOGS_OVER_TIME :: "TLogsOverTime list"
  console :: "(string \<times> error) list"

text \<open>
  The built-ins of Node.js and JavaScript whose results the model does not compute are
  parameters: the SHA-256 digest in hexadecimal, \<^verbatim>\<open>new RegExp(p)\<close> as the test it
  compiles to (\<open>None\<close>: \<^verbatim>\<open>SyntaxError\<close>), \<^verbatim>\<open>path.resolve\<close>, the number of bytes of
  \<^verbatim>\<open>JSON.stringify(data)\<close>, \<^verbatim>\<open>toFixed(2)\<close> and the conversion of a number to a string.
\<close>

record platform =
  sha256_hex :: "string \<Rightarrow> string"
  regexp :: "string \<Rightarrow> (string \<Rightarrow> bool) option"
  path_resolve :: "string \<Rightarrow> string \<Rightarrow> string"
  byte_length :: "data \<Rightarrow> nat"
  toFixed2 :: "rat \<Rightarrow> string"
  num_to_string :: "nat \<Rightarrow> string"

subsection \<open>File-system calls\<close>

definition lookup :: "state \<Rightarrow> string \<Rightarrow> string \<Rightarrow> node option" where
  "lookup s dir name = (case fs s dir of None \<Rightarrow> None | Some fl \<Rightarrow> map_of fl name)"

definition readdirSync :: "state \<Rightarrow> string \<Rightarrow> error + string list" where
  "readdirSync s dir = (case fs s dir of None \<Rightarrow> Inl ENOENT | Some fl \<Rightarrow> Inr (map fst fl))"

definition stat :: "state \<Rightarrow> string \<Rightarrow> string \<Rightarrow> error + node" where
  "stat s dir name =
     (case lookup s dir name of
        None \<Rightarrow> Inl ENOENT
      | Some n \<Rightarrow> if stat_ok n then Inr n else Inl EIO)"

definition readFile :: "state \<Rightarrow> string \<Rightarrow> string \<Rightarrow> error + filetext" where
  "readFile s dir name =
     (case lookup s dir name of
        None \<Rightarrow> Inl ENOENT
      | Some n \<Rightarrow> (case content n of None \<Rightarrow> Inl EIO | Some t \<Rightarrow> Inr t))"

definition JSON_parse :: "filetext \<Rightarrow> error + data" where
  "JSON_parse t = (case t of Malformed \<Rightarrow> Inl JSON_SyntaxError | Document d \<Rightarrow> Inr d)"

text \<open>\<^verbatim>\<open>unlinkSync\<close> removes the entry of that name, or throws and changes nothing.\<close>

definition unlinkSync :: "state \<Rightarrow> string \<Rightarrow> string \<Rightarrow> error + state" where
  "unlinkSync s dir name =
     (case fs s dir of
        None \<Rightarrow> Inl ENOENT
      | Some fl \<Rightarrow>
          (case map_of fl name of
             None \<Rightarrow> Inl ENOENT
           | Some n \<Rightarrow>
               if unlink_ok n
               then Inr (s\<lparr>fs := (fs s)(dir := Some (filter (\<lambda>e. fst e \<noteq> name) fl))\<rparr>)
               else Inl EIO))"

text \<open>\<^verbatim>\<open>mkdir(dir, { recursive: true })\<close>: nothing to do when the directory exists.\<close>

definition mkdir :: "state \<Rightarrow> string \<Rightarrow> error + state" where
  "mkdir s dir =
     (case fs s dir of
        Some fl \<Rightarrow> Inr s
      | None \<Rightarrow> if writable s then Inr (s\<lparr>fs := (fs s)(dir := Some [])\<rparr>) else Inl EACCES)"

text \<open>
  \<^verbatim>\<open>writeFile\<close> replaces the text and size of an existing file, in its place in the
  listing (the file can be \<^verbatim>\<open>stat\<close>ed afterwards, and can be unlinked if it could be
  before), or creates a regular file at the end of the listing; it fails on an entry that
  is not a file, and where the process may not write.
\<close>

definition written :: "filetext \<Rightarrow> nat \<Rightarrow> node" where
  "written t sz =
     \<lparr>stat_ok = True, is_file = True, size_bytes = sz, content = Some t, unlink_ok = True\<rparr>"

fun overwrite :: "string \<Rightarrow> node \<Rightarrow> folder \<Rightarrow> folder" where
  "overwrite name n [] = [(name, n)]"
| "overwrite name n (e # fl) =
     (if fst e = name then (name, n) # fl else e # overwrite name n fl)"

definition writeFile :: "state \<Rightarrow> string \<Rightarrow> string \<Rightarrow> filetext \<Rightarrow> nat \<Rightarrow> error + state" where
  "writeFile s dir name t sz =
     (case fs s dir of
        None \<Rightarrow> Inl ENOENT
      | Some fl \<Rightarrow>
          if \<not> writable s then Inl EACCES
          else (case map_of fl name of
                  None \<Rightarrow> Inr (s\<lparr>fs := (fs s)(dir := Some (overwrite name (written t sz) fl))\<rparr>)
                | Some n \<Rightarrow>
                    if is_file n
                    then Inr (s\<lparr>fs := (fs s)(dir := Some (overwrite name
                                (n\<lparr>stat_ok := True, size_bytes := sz, content := Some t\<rparr>) fl))\<rparr>)
                    else Inl EISDIR))"

subsection \<open>The class\<close>

record TCacheOptions =
  opt_basePath :: string
  opt_defaultTTL :: jsnum

record FileSystemCachePlugin =
  basePath :: string
  defaultTTL :: jsnum

text \<open>\<^verbatim>\<open>this.defaultTTL = defaultTTL || 60\<close>.\<close>

definition constructor :: "TCacheOptions \<Rightarrow> FileSystemCachePlugin" where
  "constructor opts =
     \<lparr>basePath = opt_basePath opts,
      defaultTTL = (if truthy (opt_defaultTTL opts) then opt_defaultTTL opts else Fin 60)\<rparr>"

text \<open>
  \<^verbatim>\<open>formatFileName\<close>: the parameter \<^verbatim>\<open>fileNamePrefix\<close> defaults to the empty string,
  which is falsy.
\<close>

definition formatFileName :: "platform \<Rightarrow> string option \<Rightarrow> string \<Rightarrow> string" where
  "formatFileName P fileNamePrefix fileName =
     (let prefix = (case fileNamePrefix of None \<Rightarrow> [] | Some p \<Rightarrow> p)
      in (if prefix \<noteq> [] then prefix @ '' hash_'' else ''hash_'') @ sha256_hex P fileName)"

record TCacheSet =
  set_fileNamePrefix :: "string option"
  set_fileName :: string
  set_payload :: jsvalue
  set_ttl :: "jsnum option"

text \<open>
  \<^verbatim>\<open>set\<close>, at the time \<open>now\<close> that \<^verbatim>\<open>Date.now()\<close> returns. \<open>set_data\<close> is the object
  \<^verbatim>\<open>data\<close> as \<^verbatim>\<open>JSON.stringify\<close> writes it: \<^verbatim>\<open>ttl * 1000\<close> and \<^verbatim>\<open>Date.now() + FILE_TTL\<close>
  are computed in doubles, and a result that is not finite is written as \<^verbatim>\<open>null\<close>. The
  handler logs the error and throws it again; what \<^verbatim>\<open>mkdir\<close> did before a failed write
  stays.
\<close>

definition set_data :: "FileSystemCachePlugin \<Rightarrow> TCacheSet \<Rightarrow> rat \<Rightarrow> data" where
  "set_data this a now =
     (let FILE_TTL = js_times (case set_ttl a of None \<Rightarrow> defaultTTL this | Some t \<Rightarrow> t) (Fin 1000);
          dataToStore = Object_js (set_payload a)
      in \<lparr>payload = serialized dataToStore,
          ttl = json_number FILE_TTL,
          expiration = (if truthy FILE_TTL then json_number (js_plus (Fin now) FILE_TTL)
                        else None)\<rparr>)"

definition set_file ::
  "platform \<Rightarrow> FileSystemCachePlugin \<Rightarrow> TCacheSet \<Rightarrow> rat \<Rightarrow> state \<Rightarrow> (error + string) \<times> state" where
  "set_file P this a now s =
     (let FILE_NAME = formatFileName P
            (Some (case set_fileNamePrefix a of None \<Rightarrow> [] | Some p \<Rightarrow> p)) (set_fileName a);
          cacheFolderPath = basePath this
      in case mkdir s cacheFolderPath of
           Inl err \<Rightarrow> (Inl err, s\<lparr>console := console s @ [(''Error:'', err)]\<rparr>)
         | Inr s1 \<Rightarrow>
             (let filePath = path_resolve P cacheFolderPath FILE_NAME;
                  d = set_data this a now
              in case writeFile s1 cacheFolderPath FILE_NAME (Document d) (byte_length P d) of
                   Inl err \<Rightarrow> (Inl err, s1\<lparr>console := console s1 @ [(''Error:'', err)]\<rparr>)
                 | Inr s2 \<Rightarrow> (Inr filePath, s2)))"

record TCacheGet =
  get_fileNamePrefix :: "string option"
  get_fileName :: string

text \<open>\<^verbatim>\<open>get\<close> reads and parses the file and returns \<^verbatim>\<open>data.payload\<close>; it changes nothing.\<close>

definition get_file :: "platform \<Rightarrow> FileSystemCachePlugin \<Rightarrow> TCacheGet \<Rightarrow> state \<Rightarrow> error + json" where
  "get_file P this a s =
     (let FILE_NAME = formatFileName P
            (Some (case get_fileNamePrefix a of None \<Rightarrow> [] | Some p \<Rightarrow> p)) (get_fileName a)
      in case stat s (basePath this) FILE_NAME of
           Inl err \<Rightarrow> Inl err
         | Inr stats \<Rightarrow>
             if \<not> is_file stats then Inl (NotInCache FILE_NAME)
             else (case readFile s (basePath this) FILE_NAME of
                     Inl err \<Rightarrow> Inl err
                   | Inr fileContent \<Rightarrow>
                       (case JSON_parse fileContent of
                          Inl err \<Rightarrow> Inl err
                        | Inr d \<Rightarrow> Inr (payload d))))"

text \<open>
  \<^verbatim>\<open>validateFile\<close>, at the time \<open>now\<close>: every failure lands in the empty handler and
  the method returns \<^verbatim>\<open>undefined\<close> (\<open>None\<close>). \<^verbatim>\<open>data.expiration\<close> is falsy when it is
  \<^verbatim>\<open>null\<close> or \<open>0\<close>, and \<^verbatim>\<open>null / 1000\<close> is \<open>0\<close>.
\<close>

record TValidated =
  v_ttl :: rat
  expiresIn :: "rat option"

definition validateFile :: "FileSystemCachePlugin \<Rightarrow> string \<Rightarrow> rat \<Rightarrow> state \<Rightarrow> TValidated option" where
  "validateFile this fileName now s =
     (case stat s (basePath this) fileName of
        Inl err \<Rightarrow> None
      | Inr stats \<Rightarrow>
          if \<not> is_file stats then None
          else (case readFile s (basePath this) fileName of
                  Inl err \<Rightarrow> None
                | Inr fileContent \<Rightarrow>
                    (case JSON_parse fileContent of
                       Inl err \<Rightarrow> None
                     | Inr d \<Rightarrow>
                         Some \<lparr>v_ttl = (case ttl d of None \<Rightarrow> 0 | Some t \<Rightarrow> t / 1000),
                               expiresIn =
                                 (case expiration d of
                                    None \<Rightarrow> None
                                  | Some e \<Rightarrow>
                                      if e \<noteq> 0 then Some (max 0 ((e - now) / 1000))
                                      else None)\<rparr>)))"

text \<open>\<^verbatim>\<open>expiresIn || 0\<close>: \<^verbatim>\<open>null\<close> and \<open>0\<close> are falsy.\<close>

definition or_zero :: "rat option \<Rightarrow> rat" where
  "or_zero x = (case x of None \<Rightarrow> 0 | Some v \<Rightarrow> if v \<noteq> 0 then v else 0)"

definition size_text :: "platform \<Rightarrow> nat \<Rightarrow> string" where
  "size_text P n =
     toFixed2 P (of_nat n / (1024 * 1024)) @ '' MB | '' @ num_to_string P n @ '' bytes''"

record TLog =
  log_file :: string
  log_ttl :: rat
  diff :: rat
  size_label :: string
  valid :: bool

text \<open>The variables of one call of \<^verbatim>\<open>invalidate\<close>, with the state.\<close>

record sweep =
  cur :: state
  logs :: "TLog list"
  filesInvalidated :: nat
  total :: nat

text \<open>
  The inner \<^verbatim>\<open>try\<close> of the loop, for one file whose \<^verbatim>\<open>statSync\<close> gave \<open>stats\<close>. The
  size is added before the deletion; a deletion that throws skips the increment of
  \<^verbatim>\<open>filesInvalidated\<close> and the \<^verbatim>\<open>logs.push\<close>, and the empty handler goes on.
\<close>

definition inspect ::
  "platform \<Rightarrow> FileSystemCachePlugin \<Rightarrow> (string \<Rightarrow> rat) \<Rightarrow> string \<Rightarrow> node \<Rightarrow> sweep \<Rightarrow> sweep" where
  "inspect P this now f stats v =
     (let r = (case validateFile this f (now f) (cur v) of
                 None \<Rightarrow> \<lparr>v_ttl = 0, expiresIn = Some 0\<rparr>
               | Some r \<Rightarrow> r);
          invalid = (or_zero (expiresIn r) \<le> 0);
          object = \<lparr>log_file = f, log_ttl = v_ttl r, diff = or_zero (expiresIn r),
                    size_label = size_text P (size_bytes stats), valid = \<not> invalid\<rparr>;
          v1 = v\<lparr>total := total v + size_bytes stats\<rparr>
      in if invalid
         then (case unlinkSync (cur v1) (basePath this) f of
                 Inl err \<Rightarrow> v1
               | Inr s' \<Rightarrow> v1\<lparr>cur := s', filesInvalidated := filesInvalidated v1 + 1,
                              logs := logs v1 @ [object]\<rparr>)
         else v1\<lparr>logs := logs v1 @ [object]\<rparr>)"

text \<open>
  The loop over the listing. \<^verbatim>\<open>statSync\<close> stands outside the inner \<^verbatim>\<open>try\<close>: when it
  throws, the outer handler ends the loop. \<open>now f\<close> is what \<^verbatim>\<open>Date.now()\<close> returns
  when the file \<open>f\<close> is validated.
\<close>

fun sweep_loop ::
  "platform \<Rightarrow> FileSystemCachePlugin \<Rightarrow> (string \<Rightarrow> rat) \<Rightarrow> string list \<Rightarrow> sweep \<Rightarrow> sweep" where
  "sweep_loop P this now [] v = v"
| "sweep_loop P this now (f # files) v =
     (case stat (cur v) (basePath this) f of
        Inl err \<Rightarrow> v
      | Inr stats \<Rightarrow> sweep_loop P this now files (inspect P this now f stats v))"

record TInvalidate =
  res_endpointInvalidateRequestCount :: nat
  res_filesInvalidated :: nat
  res_totalSize :: string
  res_bytes :: nat
  res_mb :: rat
  res_logs :: "TLog list"
  res_logsOverTime :: "TLogsOverTime list"

text \<open>
  \<^verbatim>\<open>invalidate\<close>; \<open>t_end\<close> is \<^verbatim>\<open>new Date().getTime()\<close> after the loop. The counter is
  incremented after \<^verbatim>\<open>readdirSync\<close> has returned.
\<close>

definition invalidate ::
  "platform \<Rightarrow> FileSystemCachePlugin \<Rightarrow> (string \<Rightarrow> rat) \<Rightarrow> rat \<Rightarrow> state \<Rightarrow> TInvalidate \<times> state" where
  "invalidate P this now t_end s =
     (let v0 = \<lparr>cur = s, logs = [], filesInvalidated = 0, total = 0\<rparr>;
          v = (case readdirSync s (basePath this) of
                 Inl e \<Rightarrow> v0
               | Inr files \<Rightarrow>
                   sweep_loop P this now files
                     (v0\<lparr>cur := s\<lparr>GLOBAL_ENDPOINT_INVALIDATE_REQUEST_COUNT :=
                                     GLOBAL_ENDPOINT_INVALIDATE_REQUEST_COUNT s + 1\<rparr>\<rparr>));
          totalSizeInMB = of_nat (total v) / (1024 * 1024);
          s1 = cur v;
          s2 = s1\<lparr>GLOBAL_LOGS_OVER_TIME := GLOBAL_LOGS_OVER_TIME s1 @
                 [\<lparr>log_id = t_end, bytes = total v, mb = totalSizeInMB,
                   totalSize = size_text P (total v),
                   endpointInvalidateRequestCount = GLOBAL_ENDPOINT_INVALIDATE_REQUEST_COUNT s1,
                   endpointDeleteRequestCount = GLOBAL_ENDPOINT_DELETE_REQUEST_COUNT s1,
                   endpointDeleteByRegexRequestCount =
                     GLOBAL_ENDPOINT_DELETE_BY_REGEX_REQUEST_COUNT s1\<rparr>]\<rparr>
      in (\<lparr>res_endpointInvalidateRequestCount = GLOBAL_ENDPOINT_INVALIDATE_REQUEST_COUNT s2,
           res_filesInvalidated = filesInvalidated v,
           res_totalSize = size_text P (total v),
           res_bytes = total v,
           res_mb = totalSizeInMB,
           res_logs = logs v,
           res_logsOverTime = GLOBAL_LOGS_OVER_TIME s2\<rparr>, s2))"

text \<open>
  \<^verbatim>\<open>file.match(p)\<close> compiles the string \<open>p\<close> to a regular expression, which throws on
  a malformed pattern, and is truthy when the name matches.
\<close>

definition js_match :: "platform \<Rightarrow> string \<Rightarrow> string \<Rightarrow> error + bool" where
  "js_match P f p = (case regexp P p of None \<Rightarrow> Inl RegExp_SyntaxError | Some t \<Rightarrow> Inr (t f))"

text \<open>
  The loop of \<^verbatim>\<open>flushByRegex\<close>: \<^verbatim>\<open>&&\<close> evaluates the second match only after the first
  succeeded; the first throw leaves the loop.
\<close>

fun regex_loop ::
  "platform \<Rightarrow> FileSystemCachePlugin \<Rightarrow> string \<Rightarrow> string \<Rightarrow> string list \<Rightarrow> nat \<Rightarrow> state
     \<Rightarrow> (error + nat) \<times> state" where
  "regex_loop P this org regex [] deleted s = (Inr deleted, s)"
| "regex_loop P this org regex (f # files) deleted s =
     (case js_match P f org of
        Inl err \<Rightarrow> (Inl err, s)
      | Inr False \<Rightarrow> regex_loop P this org regex files deleted s
      | Inr True \<Rightarrow>
          (case js_match P f regex of
             Inl err \<Rightarrow> (Inl err, s)
           | Inr False \<Rightarrow> regex_loop P this org regex files deleted s
           | Inr True \<Rightarrow>
               (case unlinkSync s (basePath this) f of
                  Inl err \<Rightarrow> (Inl err, s)
                | Inr s' \<Rightarrow> regex_loop P this org regex files (deleted + 1) s')))"

record TFlushByRegex =
  endpointDeleteRequestByRegexCount :: nat
  deleted_by_regex :: nat

text \<open>
  \<^verbatim>\<open>flushByRegex\<close>: the parameter \<^verbatim>\<open>regex\<close> defaults to the empty string. The handler
  logs the error and the method returns \<^verbatim>\<open>undefined\<close> (\<open>Inr None\<close>); \<open>Inl\<close> would be a
  rejected promise.
\<close>

definition flushByRegex ::
  "platform \<Rightarrow> FileSystemCachePlugin \<Rightarrow> string \<Rightarrow> string option \<Rightarrow> state
     \<Rightarrow> (error + TFlushByRegex option) \<times> state" where
  "flushByRegex P this org regex_opt s =
     (let regex = (case regex_opt of None \<Rightarrow> [] | Some r \<Rightarrow> r);
          s1 = s\<lparr>GLOBAL_ENDPOINT_DELETE_BY_REGEX_REQUEST_COUNT :=
                   GLOBAL_ENDPOINT_DELETE_BY_REGEX_REQUEST_COUNT s + 1\<rparr>
      in case readdirSync s1 (basePath this) of
           Inl err \<Rightarrow>
             (Inr None, s1\<lparr>console := console s1 @ [(''Error reading cache folder:'', err)]\<rparr>)
         | Inr files \<Rightarrow>
             (case regex_loop P this org regex files 0 s1 of
                (Inl err, s2) \<Rightarrow>
                  (Inr None,
                   s2\<lparr>console := console s2 @ [(''Error reading cache folder:'', err)]\<rparr>)
              | (Inr deleted, s2) \<Rightarrow>
                  (Inr (Some \<lparr>endpointDeleteRequestByRegexCount =
                                 GLOBAL_ENDPOINT_DELETE_BY_REGEX_REQUEST_COUNT s2,
                               deleted_by_regex = deleted\<rparr>), s2)))"

text \<open>The loop of \<^verbatim>\<open>flushAll\<close>: the first \<^verbatim>\<open>unlinkSync\<close> that throws leaves the loop.\<close>

fun unlink_loop :: "FileSystemCachePlugin \<Rightarrow> string list \<Rightarrow> state \<Rightarrow> (error + unit) \<times> state" where
  "unlink_loop this [] s = (Inr (), s)"
| "unlink_loop this (f # files) s =
     (case unlinkSync s (basePath this) f of
        Inl err \<Rightarrow> (Inl err, s)
      | Inr s' \<Rightarrow> unlink_loop this files s')"

record TFlushAll =
  flush_endpointDeleteRequestCount :: nat
  deleted :: nat

text \<open>
  \<^verbatim>\<open>flushAll\<close>: the handler logs the error and the method returns \<^verbatim>\<open>undefined\<close>
  (\<open>Inr None\<close>); \<open>Inl\<close> would be a rejected promise.
\<close>

definition flushAll ::
  "FileSystemCachePlugin \<Rightarrow> state \<Rightarrow> (error + TFlushAll option) \<times> state" where
  "flushAll this s =
     (let s1 = s\<lparr>GLOBAL_ENDPOINT_DELETE_REQUEST_COUNT :=
                   GLOBAL_ENDPOINT_DELETE_REQUEST_COUNT s + 1\<rparr>
      in case readdirSync s1 (basePath this) of
           Inl err \<Rightarrow>
             (Inr None, s1\<lparr>console := console s1 @ [(''Error reading cache folder:'', err)]\<rparr>)
         | Inr files \<Rightarrow>
             (case unlink_loop this files s1 of
                (Inl err, s2) \<Rightarrow>
                  (Inr None,
                   s2\<lparr>console := console s2 @ [(''Error reading cache folder:'', err)]\<rparr>)
              | (Inr u, s2) \<Rightarrow>
                  (Inr (Some \<lparr>flush_endpointDeleteRequestCount =
                                 GLOBAL_ENDPOINT_DELETE_REQUEST_COUNT s2,
                               deleted = length files\<rparr>), s2)))"

subsection \<open>Vocabulary of the statements\<close>

text \<open>
  An entry is live at time \<open>t\<close> when \<^verbatim>\<open>validateFile\<close> reads it and finds an expiration
  that is truthy and later than \<open>t\<close>. The sweep keeps an entry that is live, or that
  \<^verbatim>\<open>unlinkSync\<close> cannot remove.
\<close>

definition live :: "rat \<Rightarrow> node \<Rightarrow> bool" where
  "live t n =
     (is_file n \<and>
      (case content n of
         Some (Document d) \<Rightarrow> (case expiration d of Some e \<Rightarrow> e \<noteq> 0 \<and> t < e | None \<Rightarrow> False)
       | _ \<Rightarrow> False))"

definition kept :: "(string \<Rightarrow> rat) \<Rightarrow> string \<times> node \<Rightarrow> bool" where
  "kept now e = (if unlink_ok (snd e) then live (now (fst e)) (snd e) else True)"

text \<open>A name matches both patterns of \<^verbatim>\<open>flushByRegex\<close>.\<close>

definition both :: "(string \<Rightarrow> bool) \<Rightarrow> (string \<Rightarrow> bool) \<Rightarrow> string \<times> node \<Rightarrow> bool" where
  "both mo mr e = (mo (fst e) \<and> mr (fst e))"

text \<open>
  \<^verbatim>\<open>set\<close> can write the file \<open>name\<close>: the process may write, and the name is free or
  that of a file.
\<close>

definition may_write :: "state \<Rightarrow> string \<Rightarrow> string \<Rightarrow> bool" where
  "may_write s dir name =
     (writable s \<and> (case lookup s dir name of None \<Rightarrow> True | Some n \<Rightarrow> is_file n))"

text \<open>Two states agree on everything but the directories.\<close>

definition same_globals :: "state \<Rightarrow> state \<Rightarrow> bool" where
  "same_globals s s' =
     (writable s' = writable s \<and> console s' = console s
      \<and> GLOBAL_ENDPOINT_INVALIDATE_REQUEST_COUNT s' = GLOBAL_ENDPOINT_INVALIDATE_REQUEST_COUNT s
      \<and> GLOBAL_ENDPOINT_DELETE_REQUEST_COUNT s' = GLOBAL_ENDPOINT_DELETE_REQUEST_COUNT s
      \<and> GLOBAL_ENDPOINT_DELETE_BY_REGEX_REQUEST_COUNT s' =
          GLOBAL_ENDPOINT_DELETE_BY_REGEX_REQUEST_COUNT s
      \<and> GLOBAL_LOGS_OVER_TIME s' = GLOBAL_LOGS_OVER_TIME s)"

subsection \<open>Concrete inputs\<close>

text \<open>
  A platform to compute with: the digest of a name is the name itself, a pattern matches
  the names it occurs in (as a regular expression without special characters does), and
  every file is 64 bytes long.
\<close>

fun starts_with :: "string \<Rightarrow> string \<Rightarrow> bool" where
  "starts_with [] f = True"
| "starts_with (c # p) [] = False"
| "starts_with (c # p) (d # f) = (c = d \<and> starts_with p f)"

fun occurs_in :: "string \<Rightarrow> string \<Rightarrow> bool" where
  "occurs_in p [] = (p = [])"
| "occurs_in p (d # f) = (starts_with p (d # f) \<or> occurs_in p f)"

definition toy_platform :: platform where
  "toy_platform =
     \<lparr>sha256_hex = (\<lambda>name. name),
      regexp = (\<lambda>p. Some (occurs_in p)),
      path_resolve = (\<lambda>dir f. dir @ ''/'' @ f),
      byte_length = (\<lambda>d. 64),
      toFixed2 = (\<lambda>x. ''0.00''),
      num_to_string = (\<lambda>n. ''64'')\<rparr>"

definition engine :: FileSystemCachePlugin where
  "engine = constructor \<lparr>opt_basePath = ''/cache'', opt_defaultTTL = Fin 60\<rparr>"

text \<open>A process that has just started: no cache directory yet.\<close>

definition boot :: state where
  "boot = \<lparr>fs = (\<lambda>dir. None), writable = True,
           GLOBAL_ENDPOINT_INVALIDATE_REQUEST_COUNT = 0,
           GLOBAL_ENDPOINT_DELETE_REQUEST_COUNT = 0,
           GLOBAL_ENDPOINT_DELETE_BY_REGEX_REQUEST_COUNT = 0,
           GLOBAL_LOGS_OVER_TIME = [], console = []\<rparr>"

text \<open>A clock that shows the same time \<open>t\<close> at every file of a sweep.\<close>

definition at_time :: "rat \<Rightarrow> string \<Rightarrow> rat" where
  "at_time t f = t"

definition regular :: "filetext \<Rightarrow> node" where
  "regular t = written t 64"

definition subdirectory :: node where
  "subdirectory =
     \<lparr>stat_ok = True, is_file = False, size_bytes = 4096, content = None, unlink_ok = False\<rparr>"

definition with_folder :: "folder \<Rightarrow> state" where
  "with_folder fl = boot\<lparr>fs := (\<lambda>dir. None)(''/cache'' := Some fl)\<rparr>"

text \<open>One entry written with \<^verbatim>\<open>ttl: 0\<close> at time 1000.\<close>

definition forever :: state where
  "forever = snd (set_file toy_platform engine
      \<lparr>set_fileNamePrefix = None, set_fileName = ''k'', set_payload = Value (JObj []),
       set_ttl = Some (Fin 0)\<rparr> 1000 boot)"

text \<open>A file that is not JSON, before an entry that expired at time 1000.\<close>

definition corrupt :: folder where
  "corrupt =
     [(''hash_bad'', regular Malformed),
      (''hash_old'', regular (Document \<lparr>payload = JStr ''v'', ttl = Some 500, expiration = Some 1000\<rparr>))]"

text \<open>A subdirectory between two entries.\<close>

definition nested :: folder where
  "nested =
     [(''hash_a'', regular (Document \<lparr>payload = JNum 1, ttl = Some 0, expiration = None\<rparr>)),
      (''sub'', subdirectory),
      (''hash_b'', regular (Document \<lparr>payload = JNum 2, ttl = Some 0, expiration = None\<rparr>))]"

text \<open>The three files of the specification's example for the flush by pattern.\<close>

definition acme :: folder where
  "acme =
     [(''acme hash_111'', regular (Document \<lparr>payload = JNum 1, ttl = Some 0, expiration = None\<rparr>)),
      (''acme hash_222'', regular (Document \<lparr>payload = JNum 2, ttl = Some 0, expiration = None\<rparr>)),
      (''other hash_333'', regular (Document \<lparr>payload = JNum 3, ttl = Some 0, expiration = None\<rparr>))]"

section \<open>Properties\<close>

subsection \<open>Rounding to doubles\<close>

text \<open>
  \<open>ilog2\<close> is the binary exponent, so the magnitude scaled by its quantum lies below
  \<open>2 ^ 53\<close>. From this: a magnitude below \<open>2 ^ 1024 - 2 ^ 970\<close> rounds to a finite double,
  one from there on overflows, one of at least \<open>2 powi (- 1074)\<close> does not round to zero,
  and an integer of magnitude up to \<open>2 ^ 53\<close> is a double.
\<close>

lemma powi_nat: "0 \<le> k \<Longrightarrow> (2::rat) powi k = 2 ^ nat k"
  by (simp add: power_int_def)

lemma powi_neg: "0 \<le> k \<Longrightarrow> (2::rat) powi (- k) = 1 / 2 ^ nat k"
  by (simp add: power_int_def field_simps)

lemma ilog2_bounds_ge1:
  assumes "1 \<le> a"
  shows "2 powi (ilog2 a) \<le> a \<and> a < 2 powi (ilog2 a + 1)"
proof -
  let ?m = "\<lfloor>a\<rfloor>"
  have m: "0 < ?m" using assms by simp
  from bitlen_bounds[OF m] have lo: "2 ^ nat (bitlen ?m - 1) \<le> ?m" and hi: "?m < 2 ^ nat (bitlen ?m)"
    by simp_all
  have b1: "1 \<le> bitlen ?m" using m by (simp add: bitlen_alt_def)
  have k: "ilog2 a = bitlen ?m - 1" using assms by (simp add: ilog2_def)
  have "(2::rat) powi (ilog2 a) = of_int (2 ^ nat (bitlen ?m - 1))"
    using b1 by (simp add: k powi_nat)
  also have "\<dots> \<le> of_int ?m" using lo by (simp only: of_int_le_iff)
  also have "\<dots> \<le> a" by simp
  finally have A: "2 powi (ilog2 a) \<le> a" .
  have "?m + 1 \<le> 2 ^ nat (bitlen ?m)" using hi by simp
  then have "(of_int (?m + 1) :: rat) \<le> of_int (2 ^ nat (bitlen ?m))" by (simp only: of_int_le_iff)
  moreover have "a < of_int (?m + 1)" by linarith
  ultimately have "a < of_int (2 ^ nat (bitlen ?m))" by linarith
  also have "\<dots> = 2 powi (ilog2 a + 1)" using b1 by (simp add: k powi_nat)
  finally show ?thesis using A by simp
qed

lemma ilog2_bounds_lt1:
  assumes "0 < a" "a < 1"
  shows "2 powi (ilog2 a) \<le> a \<and> a < 2 powi (ilog2 a + 1)"
proof -
  let ?m = "\<lceil>1 / a\<rceil> - 1"
  have inv: "1 < 1 / a" using assms by simp
  then have "1 < \<lceil>1 / a\<rceil>" by linarith
  then have m: "0 < ?m" by simp
  from bitlen_bounds[OF m] have lo: "2 ^ nat (bitlen ?m - 1) \<le> ?m" and hi: "?m < 2 ^ nat (bitlen ?m)"
    by simp_all
  have b1: "1 \<le> bitlen ?m" using m by (simp add: bitlen_alt_def)
  have k: "ilog2 a = - bitlen ?m" using assms by (simp add: ilog2_def)
  have "1 / a \<le> of_int (?m + 1)" by simp
  also have "(of_int (?m + 1) :: rat) \<le> of_int (2 ^ nat (bitlen ?m))"
  proof -
    have "?m + 1 \<le> 2 ^ nat (bitlen ?m)" using hi by simp
    then show ?thesis by (simp only: of_int_le_iff)
  qed
  finally have "1 / a \<le> 2 ^ nat (bitlen ?m)" by simp
  then have "1 / 2 ^ nat (bitlen ?m) \<le> a"
    using assms(1) by (simp add: field_simps)
  then have A: "2 powi (ilog2 a) \<le> a"
    using b1 by (simp add: k powi_neg)
  have "of_int ?m < 1 / a" by linarith
  moreover have "(of_int (2 ^ nat (bitlen ?m - 1)) :: rat) \<le> of_int ?m"
    using lo by (simp only: of_int_le_iff)
  ultimately have "2 ^ nat (bitlen ?m - 1) < 1 / a" by simp
  then have "a < 1 / 2 ^ nat (bitlen ?m - 1)"
    using assms(1) by (simp add: field_simps)
  moreover have "(2::rat) powi (ilog2 a + 1) = 1 / 2 ^ nat (bitlen ?m - 1)"
  proof -
    have "ilog2 a + 1 = - (bitlen ?m - 1)" by (simp add: k)
    then show ?thesis using b1 powi_neg[of "bitlen ?m - 1"] by simp
  qed
  ultimately show ?thesis using A by simp
qed

lemma ilog2_bounds:
  assumes "0 < a"
  shows "2 powi (ilog2 a) \<le> a" and "a < 2 powi (ilog2 a + 1)"
  using ilog2_bounds_ge1[of a] ilog2_bounds_lt1[of a] assms by (cases "1 \<le> a"; simp)+





lemma rhe_of_int: "round_half_even (of_int n) = n"
  by (simp add: round_half_even_def)










lemma rounded_of_int:
  assumes "0 < n" and "n \<le> 2 ^ 53"
  shows "rounded (of_int n) = of_int n"
proof -
  let ?a = "of_int n :: rat"
  have pos: "0 < ?a" using assms(1) by simp
  have one: "1 \<le> ?a" using assms(1) by simp
  have L0: "0 \<le> ilog2 ?a"
  proof (rule ccontr)
    assume "\<not> 0 \<le> ilog2 ?a"
    then have "(2::rat) powi (ilog2 ?a + 1) \<le> 2 powi 0"
      by (intro power_int_increasing) simp_all
    with ilog2_bounds(2)[OF pos] one show False by simp
  qed
  then have e: "max (ilog2 ?a) (- 1022) = ilog2 ?a" by simp
  have up: "?a \<le> 2 ^ 53" using assms(2) by (metis of_int_le_iff of_int_numeral of_int_power)
  show ?thesis
  proof (cases "ilog2 ?a \<le> 52")
    case True
    let ?k = "nat (52 - ilog2 ?a)"
    have "(2::rat) powi (ilog2 ?a - 52) = 1 / 2 ^ ?k"
      using True powi_neg[of "52 - ilog2 ?a"] by simp
    then have q: "quantum ?a = 1 / 2 ^ ?k" by (simp add: quantum_def e)
    have "?a / quantum ?a = of_int (n * 2 ^ ?k)" by (simp add: q)
    then have "round_half_even (?a / quantum ?a) = n * 2 ^ ?k"
      by (simp only: rhe_of_int)
    then show ?thesis by (simp add: rounded_def q)
  next
    case False
    then have "53 \<le> ilog2 ?a" by simp
    then have "(2::rat) powi 53 \<le> 2 powi (ilog2 ?a)"
      by (intro power_int_increasing) simp_all
    with ilog2_bounds(1)[OF pos] up have a: "?a = 2 ^ 53" by simp
    have "2 powi (ilog2 ?a) \<le> (2::rat) powi 53" using ilog2_bounds(1)[OF pos] a by simp
    then have "ilog2 ?a \<le> 53" by (rule power_int_le_imp_le_exp[rotated]) simp_all
    with False have L: "ilog2 ?a = 53" by simp
    have q: "quantum ?a = 2" by (simp add: quantum_def L)
    have "?a / 2 = of_int (2 ^ 52)" by (simp add: a)
    then have "round_half_even (?a / 2) = 2 ^ 52"
      by (simp only: rhe_of_int)
    then have "rounded ?a = of_int (2 ^ 52) * 2" by (simp only: rounded_def q)
    then show ?thesis by (simp add: a)
  qed
qed

lemma round64_pos:
  "0 < x \<Longrightarrow> round64 x = (if 2 ^ 1024 \<le> rounded x then PosInfinity else Fin (rounded x))"
  by (simp add: round64_def)

lemma round64_neg:
  "x < 0 \<Longrightarrow> round64 x = (if 2 ^ 1024 \<le> rounded (- x) then NegInfinity else Fin (- rounded (- x)))"
  by (simp add: round64_def)

lemma round64_of_int:
  assumes "\<bar>n\<bar> \<le> 2 ^ 53"
  shows "round64 (of_int n) = Fin (of_int n)"
proof (cases "n = 0")
  case True
  then show ?thesis by (simp add: round64_def)
next
  case False
  then have p: "0 < \<bar>n\<bar>" by simp
  have r: "rounded \<bar>of_int n\<bar> = of_int \<bar>n\<bar>"
    using rounded_of_int[OF p assms] by simp
  have "(of_int \<bar>n\<bar> :: rat) \<le> of_int (2 ^ 53)" using assms by (simp only: of_int_le_iff)
  then have lt: "\<not> 2 ^ 1024 \<le> (of_int \<bar>n\<bar> :: rat)" by simp
  show ?thesis
  proof (cases "0 < n")
    case True
    then have "rounded (of_int n) = of_int n" using r by simp
    moreover have "\<not> 2 ^ 1024 \<le> (of_int n :: rat)" using lt True by simp
    ultimately show ?thesis using True by (simp add: round64_pos)
  next
    case neg: False
    then have n: "n < 0" using False by simp
    then have "rounded (- of_int n) = - of_int n" using r by simp
    moreover have "\<not> 2 ^ 1024 \<le> (- of_int n :: rat)" using lt n by simp
    ultimately show ?thesis using n by (simp add: round64_neg)
  qed
qed





lemma round64_0: "round64 0 = Fin 0"
  by (simp add: round64_def)

lemma round64_60000: "round64 60000 = Fin 60000"
  using round64_of_int[of 60000] by simp

lemma round64_61000: "round64 61000 = Fin 61000"
  using round64_of_int[of 61000] by simp

subsection \<open>One entry of a listing with distinct names\<close>

lemma map_of_mid:
  "distinct (map fst (pre @ (f, n) # rest)) \<Longrightarrow> map_of (pre @ (f, n) # rest) f = Some n"
  by (induction pre) auto

lemma filter_mid:
  "distinct (map fst (pre @ (f, n) # rest)) \<Longrightarrow>
   filter (\<lambda>e. fst e \<noteq> f) (pre @ (f, n) # rest) = pre @ rest"
  by (induction pre) (auto simp: filter_id_conv rev_image_eqI)

lemma map_of_filter_distinct:
  "distinct (map fst fl) \<Longrightarrow> (f, n) \<in> set fl \<Longrightarrow>
   map_of (filter Q fl) f = (if Q (f, n) then Some n else None)"
proof (induction fl)
  case Nil
  then show ?case by simp
next
  case (Cons e fl)
  show ?case
  proof (cases "e = (f, n)")
    case True
    have "f \<notin> fst ` set fl" using Cons.prems(1) True by auto
    then have "map_of (filter Q fl) f = None"
      by (auto simp: map_of_eq_None_iff)
    then show ?thesis using True by simp
  next
    case False
    then have "(f, n) \<in> set fl" using Cons.prems(2) by simp
    moreover have "fst e \<noteq> f" using Cons.prems(1) calculation by (auto simp: rev_image_eqI)
    ultimately show ?thesis using Cons by (cases e) auto
  qed
qed

lemma unlinkSync_mid:
  assumes "fs s dir = Some (pre @ (f, n) # rest)" "distinct (map fst (pre @ (f, n) # rest))"
  shows "unlinkSync s dir f =
           (if unlink_ok n then Inr (s\<lparr>fs := (fs s)(dir := Some (pre @ rest))\<rparr>) else Inl EIO)"
  using assms(1) map_of_mid[OF assms(2)] filter_mid[OF assms(2)]
  by (simp add: unlinkSync_def)

lemma stat_mid:
  assumes "fs s dir = Some (pre @ (f, n) # rest)" "distinct (map fst (pre @ (f, n) # rest))"
  shows "stat s dir f = (if stat_ok n then Inr n else Inl EIO)"
  using assms(1) map_of_mid[OF assms(2)] by (simp add: stat_def lookup_def)

lemma validateFile_mid:
  assumes "fs s (basePath this) = Some (pre @ (f, n) # rest)"
    and "distinct (map fst (pre @ (f, n) # rest))"
  shows "validateFile this f t s =
     (if stat_ok n \<and> is_file n then
        (case content n of
           Some (Document d) \<Rightarrow>
             Some \<lparr>v_ttl = (case ttl d of None \<Rightarrow> 0 | Some t \<Rightarrow> t / 1000),
                   expiresIn = (case expiration d of None \<Rightarrow> None
                                | Some e \<Rightarrow> if e \<noteq> 0 then Some (max 0 ((e - t) / 1000)) else None)\<rparr>
         | _ \<Rightarrow> None)
      else None)"
  using assms(1) map_of_mid[OF assms(2)]
  by (simp add: validateFile_def stat_def readFile_def lookup_def JSON_parse_def
           split: option.splits filetext.splits)

text \<open>The test \<^verbatim>\<open>(expiresIn || 0) <= 0\<close> of the sweep holds exactly for the entries that are not live.\<close>

lemma invalid_iff:
  assumes "fs s (basePath this) = Some (pre @ (f, n) # rest)"
    and "distinct (map fst (pre @ (f, n) # rest))" and "stat_ok n"
  shows "(or_zero (expiresIn (case validateFile this f t s of
                 None \<Rightarrow> \<lparr>v_ttl = 0, expiresIn = Some 0\<rparr>
               | Some r \<Rightarrow> r)) \<le> 0) = (\<not> live t n)"
  using assms(3)
  by (auto simp add: validateFile_mid[OF assms(1,2)] live_def or_zero_def max_def
        split: option.splits filetext.splits)

lemma failed_validation_not_live:
  assumes "fs s (basePath this) = Some fl" and "distinct (map fst fl)" and "(f, n) \<in> set fl"
    and "stat_ok n" and "validateFile this f t s = None"
  shows "\<not> live t n"
proof -
  from assms(3) obtain pre rest where fl: "fl = pre @ (f, n) # rest"
    by (auto simp: in_set_conv_decomp)
  from validateFile_mid[of s this pre f n rest t] assms(1,2,4,5) show ?thesis
    by (auto simp: fl live_def split: if_splits option.splits filetext.splits)
qed

subsection \<open>What the calls leave unchanged\<close>

lemma same_globals_refl: "same_globals s s"
  by (simp add: same_globals_def)

lemma same_globals_trans: "same_globals s s' \<Longrightarrow> same_globals s' s'' \<Longrightarrow> same_globals s s''"
  by (simp add: same_globals_def)

lemma unlinkSync_globals: "unlinkSync s dir f = Inr s' \<Longrightarrow> same_globals s s'"
  by (auto simp: unlinkSync_def same_globals_def split: option.splits if_splits)

lemma inspect_globals: "same_globals (cur v) (cur (inspect P this now f n v))"
proof (cases "unlinkSync (cur v) (basePath this) f")
  case (Inl e)
  then show ?thesis by (simp add: inspect_def Let_def same_globals_refl)
next
  case (Inr s')
  from unlinkSync_globals[OF this] Inr show ?thesis
    by (simp add: inspect_def Let_def same_globals_refl)
qed

lemma sweep_loop_globals: "same_globals (cur v) (cur (sweep_loop P this now files v))"
proof (induction files arbitrary: v)
  case Nil
  show ?case by (simp add: same_globals_refl)
next
  case (Cons f files)
  show ?case
  proof (cases "stat (cur v) (basePath this) f")
    case (Inl e)
    then show ?thesis by (simp add: same_globals_refl)
  next
    case (Inr n)
    have "same_globals (cur v) (cur (sweep_loop P this now files (inspect P this now f n v)))"
      by (rule same_globals_trans[OF inspect_globals Cons.IH])
    with Inr show ?thesis by simp
  qed
qed

lemma unlink_loop_globals: "same_globals s (snd (unlink_loop this files s))"
proof (induction files arbitrary: s)
  case Nil
  show ?case by (simp add: same_globals_refl)
next
  case (Cons f files)
  show ?case
  proof (cases "unlinkSync s (basePath this) f")
    case (Inl e)
    then show ?thesis by (simp add: same_globals_refl)
  next
    case (Inr s')
    from same_globals_trans[OF unlinkSync_globals[OF Inr] Cons.IH[of s']] Inr
    show ?thesis by simp
  qed
qed

lemma regex_loop_globals: "same_globals s (snd (regex_loop P this org regex files k s))"
proof (induction files arbitrary: k s)
  case Nil
  show ?case by (simp add: same_globals_refl)
next
  case (Cons f files)
  show ?case
  proof (cases "unlinkSync s (basePath this) f")
    case (Inl e)
    then show ?thesis
      using Cons.IH
      by (auto simp: same_globals_refl split: sum.splits bool.splits)
  next
    case (Inr s')
    have "same_globals s (snd (regex_loop P this org regex files (k + 1) s'))"
      by (rule same_globals_trans[OF unlinkSync_globals[OF Inr] Cons.IH])
    with Inr Cons.IH show ?thesis
      by (auto simp: same_globals_refl split: sum.splits bool.splits)
  qed
qed

subsection \<open>The expiry sweep\<close>

lemma inspect_mid:
  assumes "fs (cur v) (basePath this) = Some (pre @ (f, n) # rest)"
    and "distinct (map fst (pre @ (f, n) # rest))" and "stat_ok n"
  shows "fs (cur (inspect P this now f n v)) =
           (fs (cur v))(basePath this := Some (pre @ filter (kept now) [(f, n)] @ rest))"
    and "total (inspect P this now f n v) = total v + size_bytes n"
    and "filesInvalidated (inspect P this now f n v) =
           filesInvalidated v + length (filter (\<lambda>e. \<not> kept now e) [(f, n)])"
  using assms(1,3)
  by (simp_all add: inspect_def Let_def invalid_iff[OF assms] unlinkSync_mid[OF assms(1,2)]
        kept_def fun_upd_idem)

text \<open>
  The loop, started in the middle of a listing whose entries can all be \<^verbatim>\<open>stat\<close>ed:
  it removes exactly the entries that are not kept, adds up the sizes of all of them and
  counts the removed ones.
\<close>

lemma sweep_loop_mid:
  assumes "fs (cur v) (basePath this) = Some (pre @ rest)"
    and "distinct (map fst (pre @ rest))" and "\<forall>e\<in>set rest. stat_ok (snd e)"
  shows "fs (cur (sweep_loop P this now (map fst rest) v)) =
           (fs (cur v))(basePath this := Some (pre @ filter (kept now) rest))
       \<and> total (sweep_loop P this now (map fst rest) v) =
           total v + sum_list (map (\<lambda>e. size_bytes (snd e)) rest)
       \<and> filesInvalidated (sweep_loop P this now (map fst rest) v) =
           filesInvalidated v + length (filter (\<lambda>e. \<not> kept now e) rest)"
  using assms
proof (induction rest arbitrary: pre v)
  case Nil
  then show ?case by (simp add: fun_upd_idem)
next
  case (Cons e rest)
  obtain f n where e: "e = (f, n)" by (cases e)
  let ?v = "inspect P this now f n v"
  let ?pre = "pre @ filter (kept now) [(f, n)]"
  have fsv: "fs (cur v) (basePath this) = Some (pre @ (f, n) # rest)"
    and dist: "distinct (map fst (pre @ (f, n) # rest))" and ok: "stat_ok n"
    using Cons.prems by (simp_all add: e)
  note step = inspect_mid[OF fsv dist ok, of P now]
  have st: "stat (cur v) (basePath this) f = Inr n"
    using stat_mid[OF fsv dist] ok by simp
  have fs': "fs (cur ?v) (basePath this) = Some (?pre @ rest)"
    by (simp add: step(1))
  have dist': "distinct (map fst (?pre @ rest))"
    using dist by auto
  have ok': "\<forall>e\<in>set rest. stat_ok (snd e)"
    using Cons.prems(3) by simp
  note IH = Cons.IH[OF fs' dist' ok']
  have unroll: "sweep_loop P this now (map fst (e # rest)) v =
                sweep_loop P this now (map fst rest) ?v"
    by (simp add: e st)
  have fsq: "(fs (cur ?v))(basePath this := Some (?pre @ filter (kept now) rest)) =
        (fs (cur v))(basePath this := Some (pre @ filter (kept now) (e # rest)))"
    unfolding step(1) by (simp add: e)
  have a: "fs (cur (sweep_loop P this now (map fst rest) ?v)) =
        (fs (cur v))(basePath this := Some (pre @ filter (kept now) (e # rest)))"
    by (rule trans[OF conjunct1[OF IH] fsq])
  have b: "total (sweep_loop P this now (map fst rest) ?v) =
        total v + sum_list (map (\<lambda>e. size_bytes (snd e)) (e # rest))"
    using IH step(2) by (simp add: e)
  have c: "filesInvalidated (sweep_loop P this now (map fst rest) ?v) =
        filesInvalidated v + length (filter (\<lambda>e. \<not> kept now e) (e # rest))"
    using IH step(3) by (simp add: e)
  show ?case
    unfolding unroll using a b c by (intro conjI)
qed

text \<open>The whole call, on a directory whose entries can all be \<^verbatim>\<open>stat\<close>ed.\<close>

lemma invalidate_folder:
  assumes "fs s (basePath this) = Some fl" and "distinct (map fst fl)"
    and "\<forall>e\<in>set fl. stat_ok (snd e)"
  shows "fs (snd (invalidate P this now t_end s)) (basePath this) = Some (filter (kept now) fl)"
    and "res_bytes (fst (invalidate P this now t_end s)) =
           sum_list (map (\<lambda>e. size_bytes (snd e)) fl)"
    and "res_filesInvalidated (fst (invalidate P this now t_end s)) =
           length (filter (\<lambda>e. \<not> kept now e) fl)"
proof -
  let ?v0 = "\<lparr>cur = s\<lparr>GLOBAL_ENDPOINT_INVALIDATE_REQUEST_COUNT :=
                         GLOBAL_ENDPOINT_INVALIDATE_REQUEST_COUNT s + 1\<rparr>,
              logs = [], filesInvalidated = 0, total = 0\<rparr>"
  have "fs (cur ?v0) (basePath this) = Some ([] @ fl)" "distinct (map fst ([] @ fl))"
    using assms(1,2) by simp_all
  from sweep_loop_mid[OF this assms(3), of P now]
  have loop: "fs (cur (sweep_loop P this now (map fst fl) ?v0)) (basePath this) =
                Some (filter (kept now) fl)"
    "total (sweep_loop P this now (map fst fl) ?v0) = sum_list (map (\<lambda>e. size_bytes (snd e)) fl)"
    "filesInvalidated (sweep_loop P this now (map fst fl) ?v0) =
       length (filter (\<lambda>e. \<not> kept now e) fl)"
    by simp_all
  have rd: "readdirSync s (basePath this) = Inr (map fst fl)"
    using assms(1) by (simp add: readdirSync_def)
  show "fs (snd (invalidate P this now t_end s)) (basePath this) = Some (filter (kept now) fl)"
    using loop(1) by (simp add: invalidate_def rd Let_def)
  show "res_bytes (fst (invalidate P this now t_end s)) =
           sum_list (map (\<lambda>e. size_bytes (snd e)) fl)"
    using loop(2) by (simp add: invalidate_def rd Let_def)
  show "res_filesInvalidated (fst (invalidate P this now t_end s)) =
           length (filter (\<lambda>e. \<not> kept now e) fl)"
    using loop(3) by (simp add: invalidate_def rd Let_def)
qed

text \<open>
  Every call appends one snapshot to the log and leaves the two flush counters alone. The
  sweep counter goes up by one when the directory can be listed, and stays when it
  cannot: the increment follows \<^verbatim>\<open>readdirSync\<close> inside the \<^verbatim>\<open>try\<close>.
\<close>

lemma invalidate_log:
  "\<exists>snapshot. GLOBAL_LOGS_OVER_TIME (snd (invalidate P this now t_end s)) =
                GLOBAL_LOGS_OVER_TIME s @ [snapshot]"
proof (cases "readdirSync s (basePath this)")
  case (Inl e)
  then show ?thesis by (simp add: invalidate_def Let_def)
next
  case (Inr files)
  let ?v0 = "\<lparr>cur = s\<lparr>GLOBAL_ENDPOINT_INVALIDATE_REQUEST_COUNT :=
                         GLOBAL_ENDPOINT_INVALIDATE_REQUEST_COUNT s + 1\<rparr>,
              logs = [], filesInvalidated = 0, total = 0\<rparr>"
  have "GLOBAL_LOGS_OVER_TIME (cur (sweep_loop P this now files ?v0)) = GLOBAL_LOGS_OVER_TIME s"
    using sweep_loop_globals[of ?v0 P this now files] by (simp add: same_globals_def)
  with Inr show ?thesis by (simp add: invalidate_def Let_def)
qed

lemma invalidate_counter:
  "GLOBAL_ENDPOINT_INVALIDATE_REQUEST_COUNT (snd (invalidate P this now t_end s)) =
     GLOBAL_ENDPOINT_INVALIDATE_REQUEST_COUNT s + (if fs s (basePath this) = None then 0 else 1)"
proof (cases "fs s (basePath this)")
  case None
  then show ?thesis by (simp add: invalidate_def readdirSync_def Let_def)
next
  case (Some fl)
  let ?v0 = "\<lparr>cur = s\<lparr>GLOBAL_ENDPOINT_INVALIDATE_REQUEST_COUNT :=
                         GLOBAL_ENDPOINT_INVALIDATE_REQUEST_COUNT s + 1\<rparr>,
              logs = [], filesInvalidated = 0, total = 0\<rparr>"
  have "GLOBAL_ENDPOINT_INVALIDATE_REQUEST_COUNT (cur (sweep_loop P this now (map fst fl) ?v0)) =
        GLOBAL_ENDPOINT_INVALIDATE_REQUEST_COUNT s + 1"
    using sweep_loop_globals[of ?v0 P this now "map fst fl"] by (simp add: same_globals_def)
  with Some show ?thesis by (simp add: invalidate_def readdirSync_def Let_def)
qed

lemma invalidate_other_counters:
  "GLOBAL_ENDPOINT_DELETE_REQUEST_COUNT (snd (invalidate P this now t_end s)) =
     GLOBAL_ENDPOINT_DELETE_REQUEST_COUNT s
   \<and> GLOBAL_ENDPOINT_DELETE_BY_REGEX_REQUEST_COUNT (snd (invalidate P this now t_end s)) =
     GLOBAL_ENDPOINT_DELETE_BY_REGEX_REQUEST_COUNT s"
proof (cases "readdirSync s (basePath this)")
  case (Inl e)
  then show ?thesis by (simp add: invalidate_def Let_def)
next
  case (Inr files)
  let ?v0 = "\<lparr>cur = s\<lparr>GLOBAL_ENDPOINT_INVALIDATE_REQUEST_COUNT :=
                         GLOBAL_ENDPOINT_INVALIDATE_REQUEST_COUNT s + 1\<rparr>,
              logs = [], filesInvalidated = 0, total = 0\<rparr>"
  from sweep_loop_globals[of ?v0 P this now files] Inr show ?thesis
    by (simp add: invalidate_def Let_def same_globals_def)
qed

text \<open>
  In a directory whose entries can all be \<^verbatim>\<open>stat\<close>ed, the sweep removes every entry that
  holds a document without expiration and can be unlinked, at whatever time it runs.
\<close>

lemma non_expiring_entry_is_swept:
  assumes "fs s (basePath this) = Some fl" and "distinct (map fst fl)"
    and "\<forall>e\<in>set fl. stat_ok (snd e)"
    and "(f, n) \<in> set fl" and "content n = Some (Document d)" and "expiration d = None"
    and "unlink_ok n"
  shows "lookup (snd (invalidate P this now t_end s)) (basePath this) f = None"
proof -
  have "\<not> kept now (f, n)"
    using assms(5-7) by (simp add: kept_def live_def)
  then show ?thesis
    by (simp add: lookup_def invalidate_folder(1)[OF assms(1-3)]
          map_of_filter_distinct[OF assms(2,4)])
qed

text \<open>
  An entry that cannot be \<^verbatim>\<open>stat\<close>ed ends the loop: the entries after it are not
  inspected in this call.
\<close>

lemma sweep_loop_stops_at_stat_failure:
  "stat (cur v) (basePath this) f = Inl err \<Longrightarrow> sweep_loop P this now (f # files) v = v"
  by simp

lemma forever_folder:
  "fs forever ''/cache'' =
     Some [(''hash_k'', regular (Document \<lparr>payload = JObj [], ttl = Some 0, expiration = None\<rparr>))]"
  by (simp add: forever_def set_file_def toy_platform_def engine_def boot_def constructor_def
      formatFileName_def mkdir_def writeFile_def set_data_def written_def regular_def Let_def
      round64_0)

text \<open>
  Claim C1. An entry whose stored expiration is \<^verbatim>\<open>null\<close> (written by \<^verbatim>\<open>set\<close> with
  \<^verbatim>\<open>ttl: 0\<close>) is meant never to be deleted by the sweep. The code deletes it: for such
  an entry \<^verbatim>\<open>validateFile\<close> returns \<^verbatim>\<open>expiresIn: null\<close>, and the test
  \<^verbatim>\<open>(expiresIn || 0) <= 0\<close> of \<^verbatim>\<open>invalidate\<close> turns \<^verbatim>\<open>null\<close> into \<open>0\<close>. Here the
  entry is written at time 1000 into a fresh directory, and a sweep at any time \<open>t\<close>
  removes it and counts one invalidated file.
\<close>

theorem sweep_deletes_non_expiring_entry:
  "lookup forever ''/cache'' ''hash_k'' =
     Some (regular (Document \<lparr>payload = JObj [], ttl = Some 0, expiration = None\<rparr>))
   \<and> lookup (snd (invalidate toy_platform engine (at_time t) t_end forever)) ''/cache'' ''hash_k'' = None
   \<and> res_filesInvalidated (fst (invalidate toy_platform engine (at_time t) t_end forever)) = 1"
  by (simp add: lookup_def forever_folder invalidate_def readdirSync_def engine_def constructor_def
        Let_def stat_def inspect_def validateFile_def readFile_def JSON_parse_def or_zero_def
        unlinkSync_def regular_def written_def)

lemma with_folder_fs: "fs (with_folder fl) ''/cache'' = Some fl"
  by (simp add: with_folder_def)

lemma engine_basePath: "basePath engine = ''/cache''"
  by (simp add: engine_def constructor_def)

text \<open>
  Claim C2, as stated. A file that is not valid JSON is said to be skipped by the sweep
  and in particular not deleted. In the directory \<open>corrupt\<close> the validator fails on
  \<^verbatim>\<open>hash_bad\<close>, and the sweep deletes that file: \<^verbatim>\<open>invalidate\<close> replaces the
  \<^verbatim>\<open>undefined\<close> of \<^verbatim>\<open>validateFile\<close> by \<^verbatim>\<open>{ ttl: 0, expiresIn: 0 }\<close>, which counts as
  expired.
\<close>

theorem sweep_deletes_malformed_entry:
  "lookup (with_folder corrupt) ''/cache'' ''hash_bad'' = Some (regular Malformed)
   \<and> validateFile engine ''hash_bad'' 5000 (with_folder corrupt) = None
   \<and> lookup (snd (invalidate toy_platform engine (at_time 5000) 5001 (with_folder corrupt)))
        ''/cache'' ''hash_bad'' = None"
  by (simp add: lookup_def with_folder_fs invalidate_def readdirSync_def engine_basePath
        Let_def stat_def inspect_def validateFile_def readFile_def JSON_parse_def or_zero_def
        unlinkSync_def regular_def written_def corrupt_def at_time_def)

text \<open>
  Claim C2, amended. In a sweep over a directory whose entries can all be \<^verbatim>\<open>stat\<close>ed, a
  failure of the validator on one entry (not a regular file, unreadable, or not valid JSON)
  is swallowed and the entry is treated as expired: it is deleted when \<^verbatim>\<open>unlinkSync\<close>
  succeeds and stays when that fails too. The sweep goes on over the other entries: each
  entry of the listing is removed or kept by its own state alone, and the byte total
  covers all of them.
\<close>

theorem sweep_treats_failed_validation_as_expired:
  assumes "fs s (basePath this) = Some fl" and "distinct (map fst fl)"
    and "\<forall>e\<in>set fl. stat_ok (snd e)"
    and "(f, n) \<in> set fl" and "validateFile this f (now f) s = None"
  shows "lookup (snd (invalidate P this now t_end s)) (basePath this) f =
           (if unlink_ok n then None else Some n)
       \<and> fs (snd (invalidate P this now t_end s)) (basePath this) = Some (filter (kept now) fl)
       \<and> res_bytes (fst (invalidate P this now t_end s)) =
           sum_list (map (\<lambda>e. size_bytes (snd e)) fl)"
proof -
  have ok: "stat_ok n" using assms(3,4) by auto
  have dead: "\<not> live (now f) n"
    by (rule failed_validation_not_live[OF assms(1,2,4) ok assms(5)])
  note after = invalidate_folder[OF assms(1-3), of P now t_end]
  have "lookup (snd (invalidate P this now t_end s)) (basePath this) f =
          (if kept now (f, n) then Some n else None)"
    by (simp add: lookup_def after(1) map_of_filter_distinct[OF assms(2,4)])
  then have "lookup (snd (invalidate P this now t_end s)) (basePath this) f =
          (if unlink_ok n then None else Some n)"
    using dead by (simp add: kept_def)
  then show ?thesis using after(1,2) by simp
qed

theorem sweep_treats_failed_validation_as_expired_witness:
  "validateFile engine ''hash_bad'' (at_time 5000 ''hash_bad'') (with_folder corrupt) = None
   \<and> lookup (snd (invalidate toy_platform engine (at_time 5000) 5001 (with_folder corrupt)))
        ''/cache'' ''hash_bad'' = None
   \<and> fs (snd (invalidate toy_platform engine (at_time 5000) 5001 (with_folder corrupt)))
        ''/cache'' = Some []
   \<and> res_bytes (fst (invalidate toy_platform engine (at_time 5000) 5001 (with_folder corrupt))) = 128"
proof -
  have h1: "fs (with_folder corrupt) (basePath engine) = Some corrupt"
    by (simp add: with_folder_fs engine_basePath)
  have h2: "distinct (map fst corrupt)"
    by (simp add: corrupt_def)
  have h3: "\<forall>e\<in>set corrupt. stat_ok (snd e)"
    by (simp add: corrupt_def regular_def written_def)
  have h4: "(''hash_bad'', regular Malformed) \<in> set corrupt"
    by (simp add: corrupt_def)
  have h5: "validateFile engine ''hash_bad'' (at_time 5000 ''hash_bad'') (with_folder corrupt) = None"
    by (simp add: validateFile_def stat_def lookup_def with_folder_fs engine_basePath corrupt_def
          regular_def written_def readFile_def JSON_parse_def)
  from sweep_treats_failed_validation_as_expired
         [where now = "at_time 5000" and P = toy_platform and t_end = 5001, OF h1 h2 h3 h4 h5] h5
  show ?thesis
    by (simp add: engine_basePath corrupt_def regular_def written_def kept_def live_def
          at_time_def)
qed

text \<open>
  Claim C5. Every call of the sweep is meant to raise the sweep counter by one and to
  append one snapshot. In a process that has no cache directory yet, \<^verbatim>\<open>readdirSync\<close>
  throws before the increment is reached: the counter stays at \<open>0\<close>, while the snapshot
  is appended. (\<^verbatim>\<open>flushAll\<close> and \<^verbatim>\<open>flushByRegex\<close> increment their counters before they
  list the directory.)
\<close>

theorem invalidate_without_directory_keeps_counter:
  "GLOBAL_ENDPOINT_INVALIDATE_REQUEST_COUNT
     (snd (invalidate toy_platform engine (at_time 2000) 2001 boot)) = 0
   \<and> res_endpointInvalidateRequestCount
       (fst (invalidate toy_platform engine (at_time 2000) 2001 boot)) = 0
   \<and> length (GLOBAL_LOGS_OVER_TIME (snd (invalidate toy_platform engine (at_time 2000) 2001 boot))) = 1
   \<and> GLOBAL_LOGS_OVER_TIME boot = []"
  by (simp add: invalidate_def readdirSync_def boot_def engine_basePath Let_def)

subsection \<open>Flushing the whole directory\<close>

lemma unlink_loop_fail:
  assumes "fs s (basePath this) = Some (ok @ (f, n) # post)"
    and "distinct (map fst (ok @ (f, n) # post))"
    and "\<forall>e\<in>set ok. unlink_ok (snd e)" and "\<not> unlink_ok n"
  shows "fst (unlink_loop this (map fst (ok @ (f, n) # post)) s) = Inl EIO
       \<and> fs (snd (unlink_loop this (map fst (ok @ (f, n) # post)) s)) =
           (fs s)(basePath this := Some ((f, n) # post))"
  using assms
proof (induction ok arbitrary: s)
  case Nil
  have "unlinkSync s (basePath this) f = Inl EIO"
    using unlinkSync_mid[of s "basePath this" "[]" f n post] Nil by simp
  then show ?case using Nil(1) by (simp add: fun_upd_idem)
next
  case (Cons e ok)
  obtain g m where e: "e = (g, m)" by (cases e)
  let ?s = "s\<lparr>fs := (fs s)(basePath this := Some (ok @ (f, n) # post))\<rparr>"
  have u: "unlinkSync s (basePath this) g = Inr ?s"
    using unlinkSync_mid[of s "basePath this" "[]" g m "ok @ (f, n) # post"] Cons.prems
    by (simp add: e)
  have IH: "fst (unlink_loop this (map fst (ok @ (f, n) # post)) ?s) = Inl EIO
       \<and> fs (snd (unlink_loop this (map fst (ok @ (f, n) # post)) ?s)) =
           (fs ?s)(basePath this := Some ((f, n) # post))"
    using Cons.prems by (intro Cons.IH) simp_all
  have unroll: "unlink_loop this (map fst ((e # ok) @ (f, n) # post)) s =
        unlink_loop this (map fst (ok @ (f, n) # post)) ?s"
    using u by (simp add: e)
  have q: "(fs ?s)(basePath this := Some ((f, n) # post)) =
           (fs s)(basePath this := Some ((f, n) # post))"
    by simp
  show ?case
    unfolding unroll using conjunct1[OF IH] trans[OF conjunct2[OF IH] q] by (intro conjI)
qed

lemma unlink_loop_ok:
  assumes "fs s (basePath this) = Some rest" and "distinct (map fst rest)"
    and "\<forall>e\<in>set rest. unlink_ok (snd e)"
  shows "fst (unlink_loop this (map fst rest) s) = Inr ()
       \<and> fs (snd (unlink_loop this (map fst rest) s)) = (fs s)(basePath this := Some [])"
  using assms
proof (induction rest arbitrary: s)
  case Nil
  then show ?case by (simp add: fun_upd_idem)
next
  case (Cons e rest)
  obtain g m where e: "e = (g, m)" by (cases e)
  let ?s = "s\<lparr>fs := (fs s)(basePath this := Some rest)\<rparr>"
  have u: "unlinkSync s (basePath this) g = Inr ?s"
    using unlinkSync_mid[of s "basePath this" "[]" g m rest] Cons.prems
    by (simp add: e)
  have IH: "fst (unlink_loop this (map fst rest) ?s) = Inr ()
       \<and> fs (snd (unlink_loop this (map fst rest) ?s)) = (fs ?s)(basePath this := Some [])"
    using Cons.prems by (intro Cons.IH) simp_all
  have unroll: "unlink_loop this (map fst (e # rest)) s = unlink_loop this (map fst rest) ?s"
    using u by (simp add: e)
  have q: "(fs ?s)(basePath this := Some []) = (fs s)(basePath this := Some [])"
    by simp
  show ?case
    unfolding unroll using conjunct1[OF IH] trans[OF conjunct2[OF IH] q] by (intro conjI)
qed

text \<open>When every entry can be removed, \<^verbatim>\<open>flushAll\<close> empties the directory and reports its size.\<close>

lemma flushAll_ok:
  assumes "fs s (basePath this) = Some fl" and "distinct (map fst fl)"
    and "\<forall>e\<in>set fl. unlink_ok (snd e)"
  shows "fst (flushAll this s) =
           Inr (Some \<lparr>flush_endpointDeleteRequestCount = GLOBAL_ENDPOINT_DELETE_REQUEST_COUNT s + 1,
                      deleted = length fl\<rparr>)
       \<and> fs (snd (flushAll this s)) (basePath this) = Some []"
proof -
  let ?s1 = "s\<lparr>GLOBAL_ENDPOINT_DELETE_REQUEST_COUNT := GLOBAL_ENDPOINT_DELETE_REQUEST_COUNT s + 1\<rparr>"
  obtain r s2 where loop: "unlink_loop this (map fst fl) ?s1 = (r, s2)"
    by (cases "unlink_loop this (map fst fl) ?s1")
  have "fs ?s1 (basePath this) = Some fl" using assms(1) by simp
  from unlink_loop_ok[OF this assms(2,3)] loop
  have r: "r = Inr ()" and f2: "fs s2 (basePath this) = Some []" by simp_all
  have "same_globals ?s1 s2" using unlink_loop_globals[of ?s1 this "map fst fl"] loop by simp
  then have c2: "GLOBAL_ENDPOINT_DELETE_REQUEST_COUNT s2 = GLOBAL_ENDPOINT_DELETE_REQUEST_COUNT s + 1"
    by (simp add: same_globals_def)
  show ?thesis
    using assms(1) loop r f2 c2 by (simp add: flushAll_def readdirSync_def Let_def)
qed

text \<open>
  Claim C3, as stated. A failed deletion is said to be propagated to the caller of
  \<^verbatim>\<open>flushAll\<close>. In the directory \<open>nested\<close> the subdirectory \<^verbatim>\<open>sub\<close> cannot be
  unlinked; the call does not reject (\<open>Inl\<close>) but returns \<^verbatim>\<open>undefined\<close>, after logging
  the error.
\<close>

theorem flushAll_swallows_failed_deletion:
  "fst (flushAll engine (with_folder nested)) = Inr None
   \<and> console (snd (flushAll engine (with_folder nested))) = [(''Error reading cache folder:'', EIO)]
   \<and> fs (snd (flushAll engine (with_folder nested))) ''/cache'' =
       Some [(''sub'', subdirectory),
             (''hash_b'', regular (Document \<lparr>payload = JNum 2, ttl = Some 0, expiration = None\<rparr>))]"
  by (simp add: flushAll_def readdirSync_def with_folder_def boot_def engine_basePath Let_def
        unlinkSync_def nested_def regular_def written_def subdirectory_def)

text \<open>
  Claim C3, amended. When a deletion fails while \<^verbatim>\<open>flushAll\<close> goes through the listing,
  the call stops there: the entries before the failing one are gone, the failing one and
  those after it stay. The failure is caught, logged on the console, and the call
  returns \<^verbatim>\<open>undefined\<close> instead of rejecting; the counter has been incremented.
\<close>

theorem flushAll_stops_at_first_failure:
  assumes "fs s (basePath this) = Some (ok @ (f, n) # post)"
    and "distinct (map fst (ok @ (f, n) # post))"
    and "\<forall>e\<in>set ok. unlink_ok (snd e)" and "\<not> unlink_ok n"
  shows "fst (flushAll this s) = Inr None
       \<and> fs (snd (flushAll this s)) (basePath this) = Some ((f, n) # post)
       \<and> console (snd (flushAll this s)) = console s @ [(''Error reading cache folder:'', EIO)]
       \<and> GLOBAL_ENDPOINT_DELETE_REQUEST_COUNT (snd (flushAll this s)) =
           GLOBAL_ENDPOINT_DELETE_REQUEST_COUNT s + 1"
proof -
  let ?s1 = "s\<lparr>GLOBAL_ENDPOINT_DELETE_REQUEST_COUNT := GLOBAL_ENDPOINT_DELETE_REQUEST_COUNT s + 1\<rparr>"
  let ?files = "map fst (ok @ (f, n) # post)"
  obtain r s2 where loop: "unlink_loop this ?files ?s1 = (r, s2)"
    by (cases "unlink_loop this ?files ?s1")
  have "fs ?s1 (basePath this) = Some (ok @ (f, n) # post)" using assms(1) by simp
  from unlink_loop_fail[OF this assms(2-4)] loop
  have r: "r = Inl EIO" and f2: "fs s2 (basePath this) = Some ((f, n) # post)" by simp_all
  have "same_globals ?s1 s2" using unlink_loop_globals[of ?s1 this ?files] loop by simp
  then have g2: "GLOBAL_ENDPOINT_DELETE_REQUEST_COUNT s2 = GLOBAL_ENDPOINT_DELETE_REQUEST_COUNT s + 1"
    "console s2 = console s"
    by (simp_all add: same_globals_def)
  have rd: "readdirSync ?s1 (basePath this) = Inr ?files"
    using assms(1) by (simp add: readdirSync_def)
  have "flushAll this s =
          (Inr None, s2\<lparr>console := console s2 @ [(''Error reading cache folder:'', EIO)]\<rparr>)"
    unfolding flushAll_def Let_def rd using loop r by simp
  then show ?thesis using f2 g2 by simp
qed

theorem flushAll_stops_at_first_failure_witness:
  "\<not> unlink_ok subdirectory
   \<and> fst (flushAll engine (with_folder nested)) = Inr None
   \<and> fs (snd (flushAll engine (with_folder nested))) ''/cache'' =
       Some [(''sub'', subdirectory),
             (''hash_b'', regular (Document \<lparr>payload = JNum 2, ttl = Some 0, expiration = None\<rparr>))]
   \<and> GLOBAL_ENDPOINT_DELETE_REQUEST_COUNT (snd (flushAll engine (with_folder nested))) = 1"
proof -
  let ?a = "(''hash_a'', regular (Document \<lparr>payload = JNum 1, ttl = Some 0, expiration = None\<rparr>))"
  let ?b = "(''hash_b'', regular (Document \<lparr>payload = JNum 2, ttl = Some 0, expiration = None\<rparr>))"
  have h1: "fs (with_folder nested) (basePath engine) = Some ([?a] @ (''sub'', subdirectory) # [?b])"
    by (simp add: with_folder_fs engine_basePath nested_def)
  have h2: "distinct (map fst ([?a] @ (''sub'', subdirectory) # [?b]))"
    by simp
  have h3: "\<forall>e\<in>set [?a]. unlink_ok (snd e)"
    by (simp add: regular_def written_def)
  have h4: "\<not> unlink_ok subdirectory"
    by (simp add: subdirectory_def)
  from flushAll_stops_at_first_failure[OF h1 h2 h3 h4] h4 show ?thesis
    by (simp add: engine_basePath with_folder_def boot_def)
qed

subsection \<open>Flushing by pattern\<close>

text \<open>
  The loop, started in the middle of a listing, for two well-formed patterns that compile
  to the tests \<open>mo\<close> and \<open>mr\<close>, when the matching entries can be removed.
\<close>

lemma regex_loop_mid:
  assumes "regexp P org = Some mo" and "regexp P regex = Some mr"
    and "fs s (basePath this) = Some (pre @ rest)" and "distinct (map fst (pre @ rest))"
    and "\<forall>e\<in>set rest. both mo mr e \<longrightarrow> unlink_ok (snd e)"
  shows "fst (regex_loop P this org regex (map fst rest) k s) =
           Inr (k + length (filter (both mo mr) rest))
       \<and> fs (snd (regex_loop P this org regex (map fst rest) k s)) =
           (fs s)(basePath this := Some (pre @ filter (\<lambda>e. \<not> both mo mr e) rest))"
  using assms(3-)
proof (induction rest arbitrary: pre k s)
  case Nil
  then show ?case by (simp add: fun_upd_idem)
next
  case (Cons e rest)
  obtain f n where e: "e = (f, n)" by (cases e)
  have m: "js_match P f org = Inr (mo f)" "js_match P f regex = Inr (mr f)"
    using assms(1,2) by (simp_all add: js_match_def)
  show ?case
  proof (cases "both mo mr e")
    case False
    have unroll: "regex_loop P this org regex (map fst (e # rest)) k s =
                  regex_loop P this org regex (map fst rest) k s"
      using False by (cases "mo f") (simp_all add: e m both_def)
    have IH: "fst (regex_loop P this org regex (map fst rest) k s) =
           Inr (k + length (filter (both mo mr) rest))
       \<and> fs (snd (regex_loop P this org regex (map fst rest) k s)) =
           (fs s)(basePath this := Some ((pre @ [e]) @ filter (\<lambda>e. \<not> both mo mr e) rest))"
      using Cons.prems by (intro Cons.IH) simp_all
    show ?thesis
      unfolding unroll using IH False by simp
  next
    case True
    let ?s = "s\<lparr>fs := (fs s)(basePath this := Some (pre @ rest))\<rparr>"
    have u: "unlinkSync s (basePath this) f = Inr ?s"
      using unlinkSync_mid[of s "basePath this" pre f n rest] Cons.prems True
      by (simp add: e)
    have unroll: "regex_loop P this org regex (map fst (e # rest)) k s =
                  regex_loop P this org regex (map fst rest) (k + 1) ?s"
      using True u by (simp add: e m both_def)
    have IH: "fst (regex_loop P this org regex (map fst rest) (k + 1) ?s) =
           Inr (k + 1 + length (filter (both mo mr) rest))
       \<and> fs (snd (regex_loop P this org regex (map fst rest) (k + 1) ?s)) =
           (fs ?s)(basePath this := Some (pre @ filter (\<lambda>e. \<not> both mo mr e) rest))"
      using Cons.prems by (intro Cons.IH) simp_all
    have q: "(fs ?s)(basePath this := Some (pre @ filter (\<lambda>e. \<not> both mo mr e) rest)) =
             (fs s)(basePath this := Some (pre @ filter (\<lambda>e. \<not> both mo mr e) (e # rest)))"
      using True by simp
    have c1: "fst (regex_loop P this org regex (map fst rest) (k + 1) ?s) =
           Inr (k + length (filter (both mo mr) (e # rest)))"
      using conjunct1[OF IH] True by simp
    show ?thesis
      unfolding unroll using c1 trans[OF conjunct2[OF IH] q] by (intro conjI)
  qed
qed

lemma occurs_in_empty: "occurs_in [] f"
  by (induction f) simp_all

text \<open>
  Claim C6. \<^verbatim>\<open>flushByRegex\<close> deletes a file exactly when its name on disk matches both
  the organization pattern and the secondary pattern, and returns the number of files it
  deleted; an omitted secondary pattern is the empty pattern. Stated for a call that
  completes: the directory exists, both patterns are well formed (they compile to the
  tests \<open>mo\<close> and \<open>mr\<close>), and the matching files can be removed. That the empty pattern
  matches every name is a fact of \<^verbatim>\<open>RegExp\<close>, which is a parameter here.
\<close>

theorem flushByRegex_deletes_exactly_the_matching_files:
  assumes "regexp P org = Some mo"
    and "regexp P (case regex of None \<Rightarrow> [] | Some r \<Rightarrow> r) = Some mr"
    and "fs s (basePath this) = Some fl" and "distinct (map fst fl)"
    and "\<forall>e\<in>set fl. both mo mr e \<longrightarrow> unlink_ok (snd e)"
  shows "fst (flushByRegex P this org regex s) =
           Inr (Some \<lparr>endpointDeleteRequestByRegexCount =
                        GLOBAL_ENDPOINT_DELETE_BY_REGEX_REQUEST_COUNT s + 1,
                      deleted_by_regex = length (filter (both mo mr) fl)\<rparr>)
       \<and> fs (snd (flushByRegex P this org regex s)) (basePath this) =
           Some (filter (\<lambda>e. \<not> both mo mr e) fl)
       \<and> (\<forall>e\<in>set fl. (lookup (snd (flushByRegex P this org regex s)) (basePath this) (fst e) = None)
                        = (mo (fst e) \<and> mr (fst e)))"
proof -
  let ?rx = "case regex of None \<Rightarrow> [] | Some r \<Rightarrow> r"
  let ?s1 = "s\<lparr>GLOBAL_ENDPOINT_DELETE_BY_REGEX_REQUEST_COUNT :=
                 GLOBAL_ENDPOINT_DELETE_BY_REGEX_REQUEST_COUNT s + 1\<rparr>"
  obtain r s2 where loop: "regex_loop P this org ?rx (map fst fl) 0 ?s1 = (r, s2)"
    by (cases "regex_loop P this org ?rx (map fst fl) 0 ?s1")
  have "fs ?s1 (basePath this) = Some ([] @ fl)" "distinct (map fst ([] @ fl))"
    using assms(3,4) by simp_all
  from regex_loop_mid[OF assms(1,2) this assms(5), of 0] loop
  have r: "r = Inr (length (filter (both mo mr) fl))"
    and f2: "fs s2 (basePath this) = Some (filter (\<lambda>e. \<not> both mo mr e) fl)"
    by simp_all
  have "same_globals ?s1 s2"
    using regex_loop_globals[of ?s1 P this org ?rx "map fst fl" 0] loop by simp
  then have c2: "GLOBAL_ENDPOINT_DELETE_BY_REGEX_REQUEST_COUNT s2 =
                 GLOBAL_ENDPOINT_DELETE_BY_REGEX_REQUEST_COUNT s + 1"
    by (simp add: same_globals_def)
  have rd: "readdirSync ?s1 (basePath this) = Inr (map fst fl)"
    using assms(3) by (simp add: readdirSync_def)
  have call: "flushByRegex P this org regex s =
          (Inr (Some \<lparr>endpointDeleteRequestByRegexCount =
                        GLOBAL_ENDPOINT_DELETE_BY_REGEX_REQUEST_COUNT s + 1,
                      deleted_by_regex = length (filter (both mo mr) fl)\<rparr>), s2)"
    unfolding flushByRegex_def Let_def rd using loop r c2 by simp
  have gone: "(lookup s2 (basePath this) (fst e) = None) = (mo (fst e) \<and> mr (fst e))"
    if "e \<in> set fl" for e
  proof -
    have "(fst e, snd e) \<in> set fl" using that by simp
    from map_of_filter_distinct[OF assms(4) this, of "\<lambda>e. \<not> both mo mr e"]
    show ?thesis by (simp add: lookup_def f2 both_def)
  qed
  show ?thesis using call f2 gone by simp
qed

theorem flushByRegex_deletes_exactly_the_matching_files_witness:
  "fst (flushByRegex toy_platform engine ''acme'' None (with_folder acme)) =
     Inr (Some \<lparr>endpointDeleteRequestByRegexCount = 1, deleted_by_regex = 2\<rparr>)
   \<and> fs (snd (flushByRegex toy_platform engine ''acme'' None (with_folder acme))) ''/cache'' =
       Some [(''other hash_333'',
              regular (Document \<lparr>payload = JNum 3, ttl = Some 0, expiration = None\<rparr>))]
   \<and> fst (flushByRegex toy_platform engine ''acme'' (Some ''hash_9'') (with_folder acme)) =
     Inr (Some \<lparr>endpointDeleteRequestByRegexCount = 1, deleted_by_regex = 0\<rparr>)
   \<and> fs (snd (flushByRegex toy_platform engine ''acme'' (Some ''hash_9'') (with_folder acme)))
       ''/cache'' = Some acme"
proof -
  have h1: "regexp toy_platform ''acme'' = Some (occurs_in ''acme'')"
    by (simp add: toy_platform_def)
  have h2: "regexp toy_platform (case None of None \<Rightarrow> [] | Some r \<Rightarrow> r) = Some (occurs_in [])"
    by (simp add: toy_platform_def)
  have h2': "regexp toy_platform (case Some ''hash_9'' of None \<Rightarrow> [] | Some r \<Rightarrow> r) =
               Some (occurs_in ''hash_9'')"
    by (simp add: toy_platform_def)
  have h3: "fs (with_folder acme) (basePath engine) = Some acme"
    by (simp add: with_folder_fs engine_basePath)
  have h4: "distinct (map fst acme)"
    by (simp add: acme_def)
  have h5: "\<forall>e\<in>set acme. both (occurs_in ''acme'') (occurs_in []) e \<longrightarrow> unlink_ok (snd e)"
    by (simp add: acme_def regular_def written_def)
  have h5': "\<forall>e\<in>set acme. both (occurs_in ''acme'') (occurs_in ''hash_9'') e \<longrightarrow> unlink_ok (snd e)"
    by (simp add: acme_def regular_def written_def)
  have count: "GLOBAL_ENDPOINT_DELETE_BY_REGEX_REQUEST_COUNT (with_folder acme) = 0"
    by (simp add: with_folder_def boot_def)
  have a: "filter (both (occurs_in ''acme'') (occurs_in [])) acme = take 2 acme"
    "filter (\<lambda>e. \<not> both (occurs_in ''acme'') (occurs_in []) e) acme = drop 2 acme"
    by (simp_all add: acme_def both_def)
  have b: "filter (both (occurs_in ''acme'') (occurs_in ''hash_9'')) acme = []"
    "filter (\<lambda>e. \<not> both (occurs_in ''acme'') (occurs_in ''hash_9'') e) acme = acme"
    by (simp_all add: acme_def both_def)
  note first = flushByRegex_deletes_exactly_the_matching_files[OF h1 h2 h3 h4 h5, unfolded a count]
  note second = flushByRegex_deletes_exactly_the_matching_files[OF h1 h2' h3 h4 h5', unfolded b count]
  from first second show ?thesis
    by (simp add: engine_basePath acme_def)
qed

subsection \<open>Writing and reading an entry\<close>

lemma map_of_overwrite: "map_of (overwrite name n fl) name = Some n"
  by (induction fl) auto

lemma formatFileName_default:
  "formatFileName P (Some (case p of None \<Rightarrow> [] | Some q \<Rightarrow> q)) name = formatFileName P p name"
  by (simp add: formatFileName_def split: option.splits)

lemma writeFile_ok:
  assumes "fs s dir = Some fl" "may_write s dir name"
  shows "\<exists>s' n. writeFile s dir name t sz = Inr s' \<and> lookup s' dir name = Some n
           \<and> stat_ok n \<and> is_file n \<and> content n = Some t \<and> size_bytes n = sz"
  using assms
  by (cases "map_of fl name")
     (simp_all add: writeFile_def may_write_def lookup_def map_of_overwrite written_def)

text \<open>
  Where \<^verbatim>\<open>set\<close> may write, it returns the resolved path, and the file of the derived key
  holds the document \<open>set_data\<close>.
\<close>

lemma set_file_ok:
  assumes "may_write s (basePath this) (formatFileName P (set_fileNamePrefix a) (set_fileName a))"
  shows "\<exists>s' n. set_file P this a now s =
            (Inr (path_resolve P (basePath this)
                    (formatFileName P (set_fileNamePrefix a) (set_fileName a))), s')
         \<and> lookup s' (basePath this) (formatFileName P (set_fileNamePrefix a) (set_fileName a)) = Some n
         \<and> stat_ok n \<and> is_file n \<and> content n = Some (Document (set_data this a now))"
proof -
  let ?k = "formatFileName P (set_fileNamePrefix a) (set_fileName a)"
  let ?d = "set_data this a now"
  obtain s1 fl where m: "mkdir s (basePath this) = Inr s1" and f1: "fs s1 (basePath this) = Some fl"
    and w1: "may_write s1 (basePath this) ?k"
    using assms by (cases "fs s (basePath this)") (auto simp: mkdir_def may_write_def lookup_def)
  from writeFile_ok[OF f1 w1, of "Document ?d" "byte_length P ?d"]
  obtain s' n where "writeFile s1 (basePath this) ?k (Document ?d) (byte_length P ?d) = Inr s'"
    "lookup s' (basePath this) ?k = Some n" "stat_ok n" "is_file n" "content n = Some (Document ?d)"
    by blast
  with m show ?thesis
    by (simp add: set_file_def formatFileName_default Let_def)
qed

lemma get_file_hit:
  assumes "lookup s (basePath this) (formatFileName P (get_fileNamePrefix g) (get_fileName g)) = Some n"
    and "stat_ok n" "is_file n" "content n = Some (Document d)"
  shows "get_file P this g s = Inr (payload d)"
  using assms
  by (simp add: get_file_def formatFileName_default stat_def readFile_def JSON_parse_def Let_def)

lemma set_then_get:
  assumes "may_write s (basePath this) (formatFileName P (set_fileNamePrefix a) (set_fileName a))"
    and "get_fileNamePrefix g = set_fileNamePrefix a" "get_fileName g = set_fileName a"
  shows "fst (set_file P this a now s) =
           Inr (path_resolve P (basePath this)
                  (formatFileName P (set_fileNamePrefix a) (set_fileName a)))
       \<and> get_file P this g (snd (set_file P this a now s)) =
           Inr (serialized (Object_js (set_payload a)))"
proof -
  from set_file_ok[OF assms(1), of now]
  obtain s' n where s: "set_file P this a now s =
        (Inr (path_resolve P (basePath this)
                (formatFileName P (set_fileNamePrefix a) (set_fileName a))), s')"
    and n: "lookup s' (basePath this) (formatFileName P (set_fileNamePrefix a) (set_fileName a)) = Some n"
      "stat_ok n" "is_file n" "content n = Some (Document (set_data this a now))"
    by auto
  have "get_file P this g s' = Inr (payload (set_data this a now))"
    using get_file_hit[of s' this P g n, OF _ n(2,3,4)] n(1) assms(2,3) by simp
  then show ?thesis by (simp add: s set_data_def Let_def)
qed

text \<open>
  Claim C4, as stated. For every JSON-serializable payload, \<^verbatim>\<open>get\<close> right after \<^verbatim>\<open>set\<close>
  is said to return a payload equal to the stored one. \<^verbatim>\<open>null\<close> is such a payload;
  \<^verbatim>\<open>set\<close> succeeds on it, and \<^verbatim>\<open>get\<close> returns the empty object.
\<close>

theorem set_then_get_of_null_is_empty_object:
  "fst (set_file toy_platform engine
          \<lparr>set_fileNamePrefix = None, set_fileName = ''k'', set_payload = Value JNull,
           set_ttl = None\<rparr> 1000 boot) = Inr ''/cache/hash_k''
   \<and> get_file toy_platform engine \<lparr>get_fileNamePrefix = None, get_fileName = ''k''\<rparr>
       (snd (set_file toy_platform engine
          \<lparr>set_fileNamePrefix = None, set_fileName = ''k'', set_payload = Value JNull,
           set_ttl = None\<rparr> 1000 boot)) = Inr (JObj [])
   \<and> JObj [] \<noteq> JNull"
  by (simp add: set_file_def get_file_def toy_platform_def engine_def boot_def constructor_def
        formatFileName_def mkdir_def writeFile_def set_data_def written_def Let_def
        stat_def lookup_def readFile_def JSON_parse_def)

text \<open>
  Claim C4, amended. For all (prefix, name) pairs and every JSON payload other than
  \<^verbatim>\<open>null\<close>, a \<^verbatim>\<open>set\<close> that may write succeeds, and \<^verbatim>\<open>get\<close> with the same (prefix, name)
  right after it returns the payload that was stored.
\<close>

theorem set_then_get_returns_payload:
  assumes "may_write s (basePath this) (formatFileName P (set_fileNamePrefix a) (set_fileName a))"
    and "get_fileNamePrefix g = set_fileNamePrefix a" and "get_fileName g = set_fileName a"
    and "set_payload a = Value v" and "v \<noteq> JNull"
  shows "fst (set_file P this a now s) =
           Inr (path_resolve P (basePath this)
                  (formatFileName P (set_fileNamePrefix a) (set_fileName a)))
       \<and> get_file P this g (snd (set_file P this a now s)) = Inr v"
proof -
  have "serialized (Object_js (Value v)) = v"
    using assms(5) by (cases v) simp_all
  with set_then_get[OF assms(1-3), of now] assms(4) show ?thesis by simp
qed

theorem set_then_get_returns_payload_witness:
  "may_write boot ''/cache'' ''acme hash_k''
   \<and> fst (set_file toy_platform engine
          \<lparr>set_fileNamePrefix = Some ''acme'', set_fileName = ''k'',
           set_payload = Value (JArr [JNum 1, JStr ''two'', JNull]), set_ttl = Some (Fin 5)\<rparr> 1000 boot) =
       Inr ''/cache/acme hash_k''
   \<and> get_file toy_platform engine \<lparr>get_fileNamePrefix = Some ''acme'', get_fileName = ''k''\<rparr>
       (snd (set_file toy_platform engine
          \<lparr>set_fileNamePrefix = Some ''acme'', set_fileName = ''k'',
           set_payload = Value (JArr [JNum 1, JStr ''two'', JNull]), set_ttl = Some (Fin 5)\<rparr> 1000 boot)) =
       Inr (JArr [JNum 1, JStr ''two'', JNull])"
proof -
  let ?a = "\<lparr>set_fileNamePrefix = Some ''acme'', set_fileName = ''k'',
             set_payload = Value (JArr [JNum 1, JStr ''two'', JNull]), set_ttl = Some (Fin 5)\<rparr>"
  let ?g = "\<lparr>get_fileNamePrefix = Some ''acme'', get_fileName = ''k''\<rparr>"
  have key: "formatFileName toy_platform (set_fileNamePrefix ?a) (set_fileName ?a) = ''acme hash_k''"
    by (simp add: formatFileName_def toy_platform_def)
  have h0: "may_write boot ''/cache'' ''acme hash_k''"
    by (simp add: may_write_def boot_def lookup_def)
  have h1: "may_write boot (basePath engine)
              (formatFileName toy_platform (set_fileNamePrefix ?a) (set_fileName ?a))"
    unfolding key engine_basePath by (rule h0)
  have h2: "get_fileNamePrefix ?g = set_fileNamePrefix ?a" "get_fileName ?g = set_fileName ?a"
    by simp_all
  have h3: "set_payload ?a = Value (JArr [JNum 1, JStr ''two'', JNull])"
    "JArr [JNum 1, JStr ''two'', JNull] \<noteq> JNull"
    by simp_all
  from set_then_get_returns_payload[OF h1 h2 h3, of 1000] h0 show ?thesis
    unfolding key engine_basePath by (simp add: toy_platform_def)
qed

text \<open>
  Claim C10. \<^verbatim>\<open>set\<close> passes the payload through \<^verbatim>\<open>Object(...)\<close>: a payload of \<^verbatim>\<open>null\<close> or
  \<^verbatim>\<open>undefined\<close> is persisted as the empty object and \<^verbatim>\<open>get\<close> then returns \<^verbatim>\<open>{}\<close>; an
  object or array payload is persisted and returned unchanged.
\<close>

theorem set_persists_Object_of_payload:
  assumes "may_write s (basePath this) (formatFileName P (set_fileNamePrefix a) (set_fileName a))"
    and "get_fileNamePrefix g = set_fileNamePrefix a" and "get_fileName g = set_fileName a"
  shows "\<exists>n d. lookup (snd (set_file P this a now s)) (basePath this)
                 (formatFileName P (set_fileNamePrefix a) (set_fileName a)) = Some n
             \<and> content n = Some (Document d)
             \<and> get_file P this g (snd (set_file P this a now s)) = Inr (payload d)
             \<and> (set_payload a = Undefined \<longrightarrow> payload d = JObj [])
             \<and> (set_payload a = Value JNull \<longrightarrow> payload d = JObj [])
             \<and> (\<forall>kvs. set_payload a = Value (JObj kvs) \<longrightarrow> payload d = JObj kvs)
             \<and> (\<forall>xs. set_payload a = Value (JArr xs) \<longrightarrow> payload d = JArr xs)"
proof -
  from set_file_ok[OF assms(1), of now]
  obtain s' n where s: "snd (set_file P this a now s) = s'"
    and n: "lookup s' (basePath this) (formatFileName P (set_fileNamePrefix a) (set_fileName a)) = Some n"
      "content n = Some (Document (set_data this a now))"
    by auto
  have g: "get_file P this g s' = Inr (payload (set_data this a now))"
    using set_then_get[OF assms, of now] by (simp add: s set_data_def Let_def)
  have p: "payload (set_data this a now) = serialized (Object_js (set_payload a))"
    by (simp add: set_data_def Let_def)
  show ?thesis
    unfolding s using n g by (auto simp: p)
qed

theorem set_persists_Object_of_payload_witness:
  "get_file toy_platform engine \<lparr>get_fileNamePrefix = None, get_fileName = ''k''\<rparr>
       (snd (set_file toy_platform engine
          \<lparr>set_fileNamePrefix = None, set_fileName = ''k'', set_payload = Undefined,
           set_ttl = None\<rparr> 1000 boot)) = Inr (JObj [])
   \<and> lookup (snd (set_file toy_platform engine
          \<lparr>set_fileNamePrefix = None, set_fileName = ''k'', set_payload = Undefined,
           set_ttl = None\<rparr> 1000 boot)) ''/cache'' ''hash_k'' =
       Some (regular (Document \<lparr>payload = JObj [], ttl = Some 60000, expiration = Some 61000\<rparr>))"
proof -
  let ?a = "\<lparr>set_fileNamePrefix = None, set_fileName = ''k'', set_payload = Undefined,
             set_ttl = None\<rparr>"
  let ?g = "\<lparr>get_fileNamePrefix = None, get_fileName = ''k''\<rparr>"
  have key: "formatFileName toy_platform (set_fileNamePrefix ?a) (set_fileName ?a) = ''hash_k''"
    by (simp add: formatFileName_def toy_platform_def)
  have h1: "may_write boot (basePath engine)
              (formatFileName toy_platform (set_fileNamePrefix ?a) (set_fileName ?a))"
    unfolding key by (simp add: may_write_def boot_def lookup_def)
  have h2: "get_fileNamePrefix ?g = set_fileNamePrefix ?a" "get_fileName ?g = set_fileName ?a"
    by simp_all
  have stored: "lookup (snd (set_file toy_platform engine ?a 1000 boot)) ''/cache'' ''hash_k'' =
       Some (regular (Document \<lparr>payload = JObj [], ttl = Some 60000, expiration = Some 61000\<rparr>))"
    by (simp add: set_file_def toy_platform_def engine_def boot_def constructor_def
        formatFileName_def mkdir_def writeFile_def set_data_def written_def regular_def Let_def
        lookup_def round64_60000 round64_61000)
  from set_persists_Object_of_payload[OF h1 h2, of 1000] stored show ?thesis
    unfolding key engine_basePath by auto
qed

text \<open>
  Claim C8. \<^verbatim>\<open>get\<close> never looks at the TTL or the expiration: whenever the file of the
  key exists, is a regular file and parses, \<^verbatim>\<open>get\<close> returns the stored payload, whatever
  the expiration of the document, also when the entry is no longer live at the current
  time \<open>t\<close> and the next sweep would remove it. \<^verbatim>\<open>get\<close> reads no clock and changes no
  state: expiration is enforced by the sweep alone.
\<close>

theorem get_returns_payload_of_expired_entry:
  assumes "lookup s (basePath this) (formatFileName P (get_fileNamePrefix g) (get_fileName g)) = Some n"
    and "stat_ok n" and "is_file n" and "content n = Some (Document d)"
  shows "get_file P this g s = Inr (payload d)
       \<and> (\<forall>e t. expiration d = Some e \<longrightarrow> e \<le> t \<longrightarrow> \<not> live t n)"
  using get_file_hit[OF assms] assms(4) by (simp add: live_def)

theorem get_returns_payload_of_expired_entry_witness:
  "get_file toy_platform engine \<lparr>get_fileNamePrefix = None, get_fileName = ''old''\<rparr>
     (with_folder corrupt) = Inr (JStr ''v'')
   \<and> \<not> live 5000 (regular (Document \<lparr>payload = JStr ''v'', ttl = Some 500, expiration = Some 1000\<rparr>))"
proof -
  let ?g = "\<lparr>get_fileNamePrefix = None, get_fileName = ''old''\<rparr>"
  let ?d = "\<lparr>payload = JStr ''v'', ttl = Some 500, expiration = Some 1000\<rparr>"
  have h1: "lookup (with_folder corrupt) (basePath engine)
              (formatFileName toy_platform (get_fileNamePrefix ?g) (get_fileName ?g)) =
            Some (regular (Document ?d))"
    by (simp add: lookup_def with_folder_fs engine_basePath formatFileName_def toy_platform_def
          corrupt_def)
  have h2: "stat_ok (regular (Document ?d))" "is_file (regular (Document ?d))"
    "content (regular (Document ?d)) = Some (Document ?d)"
    by (simp_all add: regular_def written_def)
  from get_returns_payload_of_expired_entry[OF h1 h2] show ?thesis
    by simp
qed

subsection \<open>Key derivation and construction\<close>

text \<open>
  Claim C7. The key is a function of the prefix and the name, and the name enters it
  through its digest only: the key is \<^verbatim>\<open>hash_<digest>\<close> when no prefix, or the empty
  one, is given, and \<^verbatim>\<open><prefix> hash_<digest>\<close> otherwise, where the digest is that of
  the name alone. Two names of equal digest give the same key under the same prefix, and
  the key is as long as its label and the digest together, so a digest of fixed size
  gives keys of fixed size for a prefix.
\<close>

theorem formatFileName_is_label_and_digest_of_name:
  "formatFileName P None name = ''hash_'' @ sha256_hex P name
   \<and> formatFileName P (Some []) name = ''hash_'' @ sha256_hex P name
   \<and> (p \<noteq> [] \<longrightarrow> formatFileName P (Some p) name = p @ '' hash_'' @ sha256_hex P name)
   \<and> (sha256_hex P name = sha256_hex P name' \<longrightarrow>
        formatFileName P q name = formatFileName P q name')
   \<and> length (formatFileName P None name) = 5 + length (sha256_hex P name)
   \<and> (p \<noteq> [] \<longrightarrow> length (formatFileName P (Some p) name) =
        length p + 6 + length (sha256_hex P name))"
  by (simp add: formatFileName_def)

theorem formatFileName_is_label_and_digest_of_name_witness:
  "formatFileName toy_platform (Some ''acme'') ''111'' = ''acme hash_111''
   \<and> formatFileName toy_platform None ''111'' = ''hash_111''
   \<and> formatFileName (toy_platform\<lparr>sha256_hex := take 1\<rparr>) (Some ''acme'') ''ab'' =
       formatFileName (toy_platform\<lparr>sha256_hex := take 1\<rparr>) (Some ''acme'') ''ac''
   \<and> length (formatFileName toy_platform (Some ''acme'') ''111'') = 13"
proof -
  have h1: "''acme'' \<noteq> []" by simp
  have h2: "sha256_hex (toy_platform\<lparr>sha256_hex := take 1\<rparr>) ''ab'' =
            sha256_hex (toy_platform\<lparr>sha256_hex := take 1\<rparr>) ''ac''"
    by simp
  from formatFileName_is_label_and_digest_of_name
         [of toy_platform "''111''" "''acme''" "''111''" None]
       formatFileName_is_label_and_digest_of_name
         [of "toy_platform\<lparr>sha256_hex := take 1\<rparr>" "''ab''" "''acme''" "''ac''" "Some ''acme''"]
       h1 h2
  show ?thesis
    by (simp add: toy_platform_def formatFileName_def)
qed









end
